theory Spec2Isabelle
  imports Main "HOL-Library.Sublist" "HOL-Library.AList"
begin

section \<open>Exceptions\<close>

text \<open>
  The exceptions that the modelled code raises: \<open>FileNotFoundError\<close> from
  \<open>retrieve_object\<close>, a failure of \<open>pickle.loads\<close>, \<open>AttributeError\<close> when \<open>get_commit\<close>
  sets an attribute on an object that is not a commit, and \<open>IndexError\<close> from indexing a
  table out of range. A function that can raise returns \<open>error + 'a\<close>.
\<close>

datatype error = FileNotFoundError | UnpicklingError | AttributeError | IndexError

section \<open>Merge engine (src/merge.py)\<close>

text \<open>
  File contents are Python \<open>str\<close> values, modelled as \<open>string\<close>; an \<open>Optional[str]\<close> is a
  \<open>string option\<close>, so \<open>None\<close> (absent) and \<open>Some []\<close> (present, empty) are different
  values, as \<open>None\<close> and \<open>""\<close> are in the source.
\<close>

record MergeConflict =
  file_path :: string
  base :: string
  ours :: string
  theirs :: string

text \<open>\<open>three_way_merge\<close> returns the pair (merged content, has\_conflict).\<close>

definition three_way_merge :: "string \<Rightarrow> string \<Rightarrow> string \<Rightarrow> string \<times> bool" where
  "three_way_merge base_c ours_c theirs_c =
     (if ours_c = theirs_c then (ours_c, False)
      else if ours_c = base_c then (theirs_c, False)
      else if theirs_c = base_c then (ours_c, False)
      else ([], True))"

text \<open>
  \<open>merge_files\<close> returns the pair (merged content, conflict); the branches are those of
  the source, in the source's order. Every test on a side is \<open>is None\<close>.
\<close>

definition merge_files ::
  "string \<Rightarrow> string option \<Rightarrow> string option \<Rightarrow> string option
     \<Rightarrow> string option \<times> MergeConflict option" where
  "merge_files path base_content ours_content theirs_content =
     (case base_content of
        None \<Rightarrow>
          (case ours_content of
             None \<Rightarrow> (theirs_content, None)
           | Some oc \<Rightarrow>
               (case theirs_content of
                  None \<Rightarrow> (ours_content, None)
                | Some tc \<Rightarrow>
                    if oc = tc then (ours_content, None)
                    else (None, Some \<lparr>file_path = path, base = [], ours = oc, theirs = tc\<rparr>)))
      | Some bc \<Rightarrow>
          (case (ours_content, theirs_content) of
             (None, None) \<Rightarrow> (None, None)
           | (None, Some tc) \<Rightarrow>
               if tc = bc then (None, None)
               else (None, Some \<lparr>file_path = path, base = bc, ours = [], theirs = tc\<rparr>)
           | (Some oc, None) \<Rightarrow>
               if oc = bc then (None, None)
               else (None, Some \<lparr>file_path = path, base = bc, ours = oc, theirs = []\<rparr>)
           | (Some oc, Some tc) \<Rightarrow>
               (let (merged, has_conflict) = three_way_merge bc oc tc
                in if has_conflict
                   then (None, Some \<lparr>file_path = path, base = bc, ours = oc, theirs = tc\<rparr>)
                   else (Some merged, None))))"

text \<open>
  \<open>MergeResult\<close>: the conflicts in the order they were appended, the dictionary of merged
  files, and the success flag that \<open>add_conflict\<close> clears.
\<close>

record MergeResult =
  conflicts :: "MergeConflict list"
  merged_files :: "string \<rightharpoonup> string"
  success :: bool

definition new_result :: MergeResult where
  "new_result = \<lparr>conflicts = [], merged_files = Map.empty, success = True\<rparr>"

definition add_conflict :: "MergeConflict \<Rightarrow> MergeResult \<Rightarrow> MergeResult" where
  "add_conflict c r = r\<lparr>conflicts := conflicts r @ [c], success := False\<rparr>"

definition add_merged_file :: "string \<Rightarrow> string \<Rightarrow> MergeResult \<Rightarrow> MergeResult" where
  "add_merged_file path content r = r\<lparr>merged_files := (merged_files r)(path \<mapsto> content)\<rparr>"

definition has_conflicts :: "MergeResult \<Rightarrow> bool" where
  "has_conflicts r = (length (conflicts r) > 0)"

text \<open>
  One iteration of the loop of \<open>perform_merge\<close>. A \<open>MergeConflict\<close> object is always truthy,
  so \<open>if conflict\<close> tests for \<open>None\<close>; the merged content is tested with \<open>is not None\<close>.
\<close>

definition merge_step ::
  "(string \<rightharpoonup> string) \<Rightarrow> (string \<rightharpoonup> string) \<Rightarrow> (string \<rightharpoonup> string)
     \<Rightarrow> string \<Rightarrow> MergeResult \<Rightarrow> MergeResult" where
  "merge_step base_files ours_files theirs_files path r =
     (let (merged_content, conflict) =
            merge_files path (base_files path) (ours_files path) (theirs_files path)
      in case conflict of
           Some c \<Rightarrow> add_conflict c r
         | None \<Rightarrow>
             (case merged_content of
                Some content \<Rightarrow> add_merged_file path content r
              | None \<Rightarrow> r))"

text \<open>
  \<open>perform_merge\<close> iterates over the Python set \<open>all_paths\<close>, the union of the three key
  sets. The order in which a set is iterated is not fixed by the language, so the model
  takes it as the argument \<open>all_paths\<close>: a list without repetition whose elements are
  the keys of the three dictionaries (\<open>paths_of\<close>).
\<close>

definition paths_of ::
  "string list \<Rightarrow> (string \<rightharpoonup> string) \<Rightarrow> (string \<rightharpoonup> string) \<Rightarrow> (string \<rightharpoonup> string) \<Rightarrow> bool" where
  "paths_of all_paths base_files ours_files theirs_files \<longleftrightarrow>
     distinct all_paths \<and>
     set all_paths = dom base_files \<union> dom ours_files \<union> dom theirs_files"

definition perform_merge ::
  "string list \<Rightarrow> (string \<rightharpoonup> string) \<Rightarrow> (string \<rightharpoonup> string) \<Rightarrow> (string \<rightharpoonup> string)
     \<Rightarrow> MergeResult" where
  "perform_merge all_paths base_files ours_files theirs_files =
     fold (merge_step base_files ours_files theirs_files) all_paths new_result"

text \<open>
  How \<open>perform_merge\<close> reads the pair returned by \<open>merge_files\<close>: a conflict, content to
  take, or nothing (the path is dropped).
\<close>

datatype outcome = Take string | Drop | Conflict

definition outcome_of :: "string option \<times> MergeConflict option \<Rightarrow> outcome" where
  "outcome_of r =
     (case snd r of
        Some c \<Rightarrow> Conflict
      | None \<Rightarrow> (case fst r of Some content \<Rightarrow> Take content | None \<Rightarrow> Drop))"

text \<open>
  The state machine of the specification, rule by rule, written from its words and not
  from the source. The rules say nothing about a path absent on all three sides.
\<close>

fun spec_rules :: "string option \<Rightarrow> string option \<Rightarrow> string option \<Rightarrow> outcome option" where
  "spec_rules None None None = None"
| "spec_rules None (Some oc) (Some tc) = (if oc = tc then Some (Take oc) else Some Conflict)"
| "spec_rules None (Some oc) None = Some (Take oc)"
| "spec_rules None None (Some tc) = Some (Take tc)"
| "spec_rules (Some bc) None None = Some Drop"
| "spec_rules (Some bc) None (Some tc) = (if tc = bc then Some Drop else Some Conflict)"
| "spec_rules (Some bc) (Some oc) None = (if oc = bc then Some Drop else Some Conflict)"
| "spec_rules (Some bc) (Some oc) (Some tc) =
     (if oc = tc then Some (Take oc)
      else if oc = bc then Some (Take tc)
      else if tc = bc then Some (Take oc)
      else Some Conflict)"

section \<open>Diff engine (src/diff.py)\<close>

text \<open>
  A \<open>DiffLine\<close> carries its type (\<open>' '\<close> unchanged, \<open>'+'\<close> added, \<open>'-'\<close> removed), the line
  and a line number (the 1-based index in the first text, \<open>0\<close> for an added line).
\<close>

record DiffLine =
  line_type :: string
  content :: string
  line_num :: nat

text \<open>
  \<open>str.splitlines()\<close>: the text is cut at every line boundary, \<open>\r\n\<close> counting as one,
  and no empty last line is produced. The boundaries are \<open>\n\<close>, \<open>\r\<close>, \<open>\v\<close>, \<open>\f\<close>,
  \<open>\x1c\<close>, \<open>\x1d\<close>, \<open>\x1e\<close> and \<open>\x85\<close>; Python also cuts at U+2028 and U+2029, which are
  not characters of the type \<open>char\<close>. \<open>cur\<close> is the line read so far.
\<close>

definition is_boundary :: "char \<Rightarrow> bool" where
  "is_boundary c \<longleftrightarrow>
     c \<in> {CHR 0x0A, CHR 0x0D, CHR 0x0B, CHR 0x0C, CHR 0x1C, CHR 0x1D, CHR 0x1E, CHR 0x85}"

fun splitlines_from :: "string \<Rightarrow> string \<Rightarrow> string list" where
  "splitlines_from cur [] = (if cur = [] then [] else [cur])"
| "splitlines_from cur [c] = (if is_boundary c then [cur] else [cur @ [c]])"
| "splitlines_from cur (c # d # cs) =
     (if c = CHR 0x0D \<and> d = CHR 0x0A then cur # splitlines_from [] cs
      else if is_boundary c then cur # splitlines_from [] (d # cs)
      else splitlines_from (cur @ [c]) (d # cs))"

definition splitlines :: "string \<Rightarrow> string list" where
  "splitlines text = splitlines_from [] text"

text \<open>
  \<open>compute_lcs_length\<close>: the table of \<open>m + 1\<close> rows of \<open>n + 1\<close> zeros, then the two nested
  loops over \<open>i = 1..m\<close> and \<open>j = 1..n\<close>, each assigning \<open>dp[i][j]\<close>. Every index the loops
  use is inside the table they have just built and inside the two texts. The entries are
  counts, kept as natural numbers.
\<close>

definition lcs_cell ::
  "'a list \<Rightarrow> 'a list \<Rightarrow> nat \<Rightarrow> nat \<Rightarrow> nat list list \<Rightarrow> nat list list" where
  "lcs_cell text1 text2 i j dp =
     (if text1 ! (i - 1) = text2 ! (j - 1)
      then dp[i := (dp ! i)[j := dp ! (i - 1) ! (j - 1) + 1]]
      else dp[i := (dp ! i)[j := max (dp ! (i - 1) ! j) (dp ! i ! (j - 1))]])"

definition compute_lcs_length :: "'a list \<Rightarrow> 'a list \<Rightarrow> nat list list" where
  "compute_lcs_length text1 text2 =
     (let m = length text1;
          n = length text2;
          dp = replicate (m + 1) (replicate (n + 1) 0)
      in fold (\<lambda>i dp. fold (\<lambda>j dp. lcs_cell text1 text2 i j dp) [1..<n + 1] dp)
              [1..<m + 1] dp)"

text \<open>\<open>dp[i][j]\<close> for a table passed in by the caller: outside the table it raises.\<close>

definition cell :: "nat list list \<Rightarrow> nat \<Rightarrow> nat \<Rightarrow> error + nat" where
  "cell dp i j =
     (if i < length dp \<and> j < length (dp ! i) then Inr (dp ! i ! j) else Inl IndexError)"

text \<open>
  The loop of \<open>backtrack_diff\<close>, with the list \<open>diff\<close> it appends to. It starts at
  \<open>i = len(text1)\<close>, \<open>j = len(text2)\<close> and both only decrease, so \<open>text1[i - 1]\<close> and
  \<open>text2[j - 1]\<close> are read inside the texts; the last branch is reached with \<open>i > 0\<close>
  only. \<open>dp[i][j - 1] >= dp[i - 1][j]\<close> is evaluated when \<open>j > 0\<close> and \<open>i \<noteq> 0\<close>.
\<close>

function backtrack_loop ::
  "string list \<Rightarrow> string list \<Rightarrow> nat list list \<Rightarrow> nat \<Rightarrow> nat \<Rightarrow> DiffLine list
     \<Rightarrow> error + DiffLine list" where
  "backtrack_loop text1 text2 dp i j diff =
     (if i > 0 \<or> j > 0 then
        if i > 0 \<and> j > 0 \<and> text1 ! (i - 1) = text2 ! (j - 1) then
          backtrack_loop text1 text2 dp (i - 1) (j - 1)
            (diff @ [\<lparr>line_type = '' '', content = text1 ! (i - 1), line_num = i\<rparr>])
        else if j > 0 \<and> i = 0 then
          backtrack_loop text1 text2 dp i (j - 1)
            (diff @ [\<lparr>line_type = ''+'', content = text2 ! (j - 1), line_num = 0\<rparr>])
        else if j > 0 then
          (case cell dp i (j - 1) of
             Inl e \<Rightarrow> Inl e
           | Inr left \<Rightarrow>
               (case cell dp (i - 1) j of
                  Inl e \<Rightarrow> Inl e
                | Inr up \<Rightarrow>
                    if left \<ge> up then
                      backtrack_loop text1 text2 dp i (j - 1)
                        (diff @ [\<lparr>line_type = ''+'', content = text2 ! (j - 1), line_num = 0\<rparr>])
                    else
                      backtrack_loop text1 text2 dp (i - 1) j
                        (diff @ [\<lparr>line_type = ''-'', content = text1 ! (i - 1), line_num = i\<rparr>])))
        else
          backtrack_loop text1 text2 dp (i - 1) j
            (diff @ [\<lparr>line_type = ''-'', content = text1 ! (i - 1), line_num = i\<rparr>])
      else Inr diff)"
  by pat_completeness auto
termination
  by (relation "measure (\<lambda>(text1, text2, dp, i, j, diff). i + j)") auto

declare backtrack_loop.simps [simp del]

definition backtrack_diff ::
  "string list \<Rightarrow> string list \<Rightarrow> nat list list \<Rightarrow> error + DiffLine list" where
  "backtrack_diff text1 text2 dp =
     (case backtrack_loop text1 text2 dp (length text1) (length text2) [] of
        Inl e \<Rightarrow> Inl e
      | Inr diff \<Rightarrow> Inr (rev diff))"

definition compute_diff :: "string \<Rightarrow> string \<Rightarrow> error + DiffLine list" where
  "compute_diff text1 text2 =
     (let lines1 = (if text1 \<noteq> [] then splitlines text1 else []);
          lines2 = (if text2 \<noteq> [] then splitlines text2 else []);
          dp = compute_lcs_length lines1 lines2
      in backtrack_diff lines1 lines2 dp)"

text \<open>
  The words of the specification. \<open>lcs_len xs ys i j\<close> is the standard recurrence for the
  length of a longest common subsequence of the first \<open>i\<close> lines of \<open>xs\<close> and the first
  \<open>j\<close> lines of \<open>ys\<close>. \<open>spec_backtrack\<close> is the backtracking as the specification words
  it, from cell \<open>(i, j)\<close>, in the order in which the lines are emitted: unchanged and a
  diagonal step on a match; otherwise added when the left neighbour's length is at least
  the up neighbour's (on the border \<open>i = 0\<close> there is only the left neighbour, on the
  border \<open>j = 0\<close> only the up neighbour); otherwise removed.
\<close>

fun lcs_len :: "'a list \<Rightarrow> 'a list \<Rightarrow> nat \<Rightarrow> nat \<Rightarrow> nat" where
  "lcs_len xs ys 0 j = 0"
| "lcs_len xs ys (Suc i) 0 = 0"
| "lcs_len xs ys (Suc i) (Suc j) =
     (if xs ! i = ys ! j then lcs_len xs ys i j + 1
      else max (lcs_len xs ys i (Suc j)) (lcs_len xs ys (Suc i) j))"

fun spec_backtrack :: "string list \<Rightarrow> string list \<Rightarrow> nat \<Rightarrow> nat \<Rightarrow> DiffLine list" where
  "spec_backtrack xs ys 0 0 = []"
| "spec_backtrack xs ys 0 (Suc j) =
     \<lparr>line_type = ''+'', content = ys ! j, line_num = 0\<rparr> # spec_backtrack xs ys 0 j"
| "spec_backtrack xs ys (Suc i) 0 =
     \<lparr>line_type = ''-'', content = xs ! i, line_num = Suc i\<rparr> # spec_backtrack xs ys i 0"
| "spec_backtrack xs ys (Suc i) (Suc j) =
     (if xs ! i = ys ! j then
        \<lparr>line_type = '' '', content = xs ! i, line_num = Suc i\<rparr> # spec_backtrack xs ys i j
      else if lcs_len xs ys (Suc i) j \<ge> lcs_len xs ys i (Suc j) then
        \<lparr>line_type = ''+'', content = ys ! j, line_num = 0\<rparr> # spec_backtrack xs ys (Suc i) j
      else
        \<lparr>line_type = ''-'', content = xs ! i, line_num = Suc i\<rparr> # spec_backtrack xs ys i (Suc j))"

text \<open>The lines of a diff by type, and the lines split from a text as \<open>compute_diff\<close> does.\<close>

definition unchanged :: "DiffLine list \<Rightarrow> string list" where
  "unchanged ds = map content (filter (\<lambda>d. line_type d = '' '') ds)"

definition added :: "DiffLine list \<Rightarrow> string list" where
  "added ds = map content (filter (\<lambda>d. line_type d = ''+'') ds)"

definition removed :: "DiffLine list \<Rightarrow> string list" where
  "removed ds = map content (filter (\<lambda>d. line_type d = ''-'') ds)"

text \<open>The removed and unchanged lines, and the added and unchanged lines, in order.\<close>

definition old_lines :: "DiffLine list \<Rightarrow> string list" where
  "old_lines ds = map content (filter (\<lambda>d. line_type d = ''-'' \<or> line_type d = '' '') ds)"

definition new_lines :: "DiffLine list \<Rightarrow> string list" where
  "new_lines ds = map content (filter (\<lambda>d. line_type d = ''+'' \<or> line_type d = '' '') ds)"

definition lines_of :: "string \<Rightarrow> string list" where
  "lines_of text = (if text \<noteq> [] then splitlines text else [])"

text \<open>The edit script of the specification: the backtracking from cell \<open>(m, n)\<close>, reversed.\<close>

definition spec_diff :: "string \<Rightarrow> string \<Rightarrow> DiffLine list" where
  "spec_diff text1 text2 =
     rev (spec_backtrack (lines_of text1) (lines_of text2)
            (length (lines_of text1)) (length (lines_of text2)))"

text \<open>
  Swapping the labels of a diff: every added line becomes a removed line and every
  removed line an added one; \<open>labelled\<close> keeps the label and the line of each entry.
\<close>

definition swap_label :: "string \<Rightarrow> string" where
  "swap_label ty = (if ty = ''+'' then ''-'' else if ty = ''-'' then ''+'' else ty)"

definition labelled :: "DiffLine list \<Rightarrow> (string \<times> string) list" where
  "labelled ds = map (\<lambda>d. (line_type d, content d)) ds"

definition swapped :: "DiffLine list \<Rightarrow> (string \<times> string) list" where
  "swapped ds = map (\<lambda>d. (swap_label (line_type d), content d)) ds"

text \<open>
  \<open>filled xs ys dp i j\<close>: the table has its \<open>(m + 1) \<times> (n + 1)\<close> shape and holds the
  value of the recurrence in column \<open>0\<close>, in the rows before \<open>i\<close> and in row \<open>i\<close> up to
  column \<open>j\<close>: the state of the table while the loops run.
\<close>

definition filled :: "'a list \<Rightarrow> 'a list \<Rightarrow> nat list list \<Rightarrow> nat \<Rightarrow> nat \<Rightarrow> bool" where
  "filled xs ys dp i j \<longleftrightarrow>
     length dp = length xs + 1 \<and>
     (\<forall>a \<le> length xs. length (dp ! a) = length ys + 1) \<and>
     (\<forall>a b. a \<le> length xs \<longrightarrow> b \<le> length ys \<longrightarrow> (a < i \<or> (a = i \<and> b \<le> j) \<or> b = 0) \<longrightarrow>
        dp ! a ! b = lcs_len xs ys a b)"

section \<open>Tree model (src/tree.py)\<close>

text \<open>
  A \<open>TreeNode\<close> has a name, the flag \<open>is_file\<close>, an optional content hash and the
  dictionary \<open>children\<close>. A Python dictionary keeps its keys in insertion order and
  \<open>to_dict\<close> and \<open>list_all_files\<close> iterate over it, so \<open>children\<close> is an association
  list: \<open>d[k] = v\<close> is \<open>AList.update k v\<close> (in place when the key exists, appended
  otherwise) and \<open>d.get(k)\<close> is \<open>map_of d k\<close>. The source mutates nodes in place; every
  node is referenced by its parent only, so the model rebuilds the path to the node.
\<close>

datatype TreeNode =
  TreeNode (name: string) (is_file: bool) (content_hash: "string option")
           (children: "(string \<times> TreeNode) list")

definition add_child :: "TreeNode \<Rightarrow> TreeNode \<Rightarrow> TreeNode" where
  "add_child child node =
     TreeNode (name node) (is_file node) (content_hash node)
              (AList.update (name child) child (children node))"

definition get_child :: "TreeNode \<Rightarrow> string \<Rightarrow> TreeNode option" where
  "get_child node nm = map_of (children node) nm"

text \<open>
  The dictionary built by \<open>to_dict\<close>: the keys \<open>name\<close> and \<open>is_file\<close>, and either
  \<open>content_hash\<close> (for a file; its value may be \<open>None\<close>) or \<open>children\<close> (for a
  directory). A key that is not set is \<open>None\<close> at the outer level.
\<close>

datatype tree_dict =
  TreeDict (d_name: string) (d_is_file: bool) (d_content_hash: "string option option")
           (d_children: "(string \<times> tree_dict) list option")

primrec to_dict :: "TreeNode \<Rightarrow> tree_dict" where
  "to_dict (TreeNode nm f h cs) =
     TreeDict nm f
       (if f then Some h else None)
       (if f then None else Some (map (map_prod id to_dict) cs))"

text \<open>
  \<open>from_dict\<close> reads \<open>content_hash\<close> with \<open>data.get\<close>, and for a directory adds the node of
  every value of \<open>data.get('children', {})\<close> with \<open>add_child\<close>, that is under the child's
  own name and not under the key it had in the dictionary.
\<close>

primrec from_dict :: "tree_dict \<Rightarrow> TreeNode" where
  "from_dict (TreeDict nm f h cs) =
     (let node = TreeNode nm f (case h of None \<Rightarrow> None | Some v \<Rightarrow> v) [] in
      if \<not> f then
        fold add_child
          (map snd (case map_option (map (map_prod id from_dict)) cs of
                      None \<Rightarrow> [] | Some kids \<Rightarrow> kids))
          node
      else node)"

text \<open>\<open>str.split('/')\<close>: never the empty list; \<open>"".split('/')\<close> is \<open>['']\<close>.\<close>

fun split_path :: "string \<Rightarrow> string list" where
  "split_path [] = [[]]"
| "split_path (c # cs) =
     (if c = CHR ''/'' then [] # split_path cs
      else (case split_path cs of
              [] \<Rightarrow> [[c]]
            | p # ps \<Rightarrow> (c # p) # ps))"

text \<open>
  A child that the loop of \<open>add_file\<close> finds and then changes in place stays under the
  key it was found at.
\<close>

definition replace_child :: "string \<Rightarrow> TreeNode \<Rightarrow> TreeNode \<Rightarrow> TreeNode" where
  "replace_child key child node =
     TreeNode (name node) (is_file node) (content_hash node)
              (AList.update key child (children node))"

text \<open>
  \<open>add_file\<close>: the loop over \<open>parts[:-1]\<close> followed by the insertion of the leaf, as a
  recursion over the remaining parts. The loop steps into an existing child whatever its
  kind: nothing tests \<open>is_file\<close>.
\<close>

fun add_parts :: "string list \<Rightarrow> string \<Rightarrow> TreeNode \<Rightarrow> TreeNode" where
  "add_parts [] h current = current"
| "add_parts [part] h current = add_child (TreeNode part True (Some h) []) current"
| "add_parts (part # parts) h current =
     (case get_child current part of
        None \<Rightarrow> add_child (add_parts parts h (TreeNode part False None [])) current
      | Some child \<Rightarrow> replace_child part (add_parts parts h child) current)"

text \<open>A \<open>DirectoryTree\<close> is its root node; a new tree has the empty directory \<open>.\<close> as root.\<close>

definition new_tree :: TreeNode where
  "new_tree = TreeNode ''.'' False None []"

definition add_file :: "TreeNode \<Rightarrow> string \<Rightarrow> string \<Rightarrow> TreeNode" where
  "add_file root path h = add_parts (split_path path) h root"

fun walk :: "TreeNode \<Rightarrow> string list \<Rightarrow> TreeNode option" where
  "walk current [] = Some current"
| "walk current (part # parts) =
     (case get_child current part of
        None \<Rightarrow> None
      | Some child \<Rightarrow> walk child parts)"

definition get_file_hash :: "TreeNode \<Rightarrow> string \<Rightarrow> string option" where
  "get_file_hash root path =
     (case walk root (split_path path) of
        None \<Rightarrow> None
      | Some current \<Rightarrow> if is_file current then content_hash current else None)"

text \<open>
  The helper \<open>dfs\<close> of \<open>list_all_files\<close>; the list it returns is what it appends to
  \<open>files\<close>. \<open>if path\<close> is the test that the string is not empty.
\<close>

primrec dfs :: "TreeNode \<Rightarrow> string \<Rightarrow> string list" where
  "dfs (TreeNode nm f h cs) path =
     (if f then [path]
      else concat (map (\<lambda>(child_name, child_dfs).
                          child_dfs (if path \<noteq> [] then path @ ''/'' @ child_name
                                     else child_name))
                       (map (map_prod id dfs) cs)))"

definition list_all_files :: "TreeNode \<Rightarrow> string list" where
  "list_all_files root = dfs root []"

text \<open>
  The tree that \<open>Repository.commit\<close> builds: \<open>add_file\<close> for every staged (path, hash)
  pair, in the order of the staging dictionary.
\<close>

definition build_tree :: "(string \<times> string) list \<Rightarrow> TreeNode" where
  "build_tree staged = fold (\<lambda>(path, h) root. add_file root path h) staged new_tree"

text \<open>
  Shapes of a tree, used to state what the operations keep. \<open>well_keyed\<close>: in every
  node the keys of \<open>children\<close> are distinct, every child lies under its own name, and a
  directory has no content hash. \<open>files_are_leaves\<close>: no file node has children.
  \<open>strip\<close> removes the children of every file node.
\<close>

fun well_keyed :: "TreeNode \<Rightarrow> bool" where
  "well_keyed (TreeNode nm f h cs) =
     (distinct (map fst cs) \<and> (\<not> f \<longrightarrow> h = None) \<and>
      (\<forall>(k, c) \<in> set cs. k = name c \<and> well_keyed c))"

fun files_are_leaves :: "TreeNode \<Rightarrow> bool" where
  "files_are_leaves (TreeNode nm f h cs) =
     ((f \<longrightarrow> cs = []) \<and> (\<forall>(k, c) \<in> set cs. files_are_leaves c))"

primrec strip :: "TreeNode \<Rightarrow> TreeNode" where
  "strip (TreeNode nm f h cs) =
     TreeNode nm f h (if f then [] else map (map_prod id strip) cs)"

text \<open>\<open>file_at t cs\<close>: the walk from \<open>t\<close> along the components \<open>cs\<close> ends at a file node.\<close>

definition file_at :: "TreeNode \<Rightarrow> string list \<Rightarrow> bool" where
  "file_at t cs = (\<exists>n. walk t cs = Some n \<and> is_file n)"

section \<open>Object store (src/hash\_object.py)\<close>

text \<open>
  The objects directory is a map from identifiers to the bytes of the file stored under
  them. \<open>hashlib.sha1\<close> and \<open>pickle\<close> are libraries outside the repository: the digest
  function \<open>sha1\<close>, \<open>pickle.dumps\<close> and \<open>pickle.loads\<close> are parameters, \<open>loads\<close> returning
  \<open>None\<close> where unpickling raises.

  The source keeps the object \<open>h\<close> in the file \<open>objects/h[:2]/h[2:]\<close>. For identifiers of
  the shape that \<open>hash_content\<close> returns (\<open>digest\<close>: forty hexadecimal digits in lower
  case) that file exists exactly when \<open>h\<close> has been stored, and the map is the directory.
  For other strings the path decides, not the identifier: \<open>''\<close> and the two characters of
  a bucket name a directory, which exists and cannot be opened as a file, and a string with
  a path separator can name the file of another identifier. The map says nothing faithful
  about the lookup of such a string when it is not a key; what is stated about absent
  identifiers below is stated for digests, in a store whose keys are digests
  (\<open>digest_keys\<close>).
\<close>

definition hex_digit :: "char \<Rightarrow> bool" where
  "hex_digit c \<longleftrightarrow> c \<in> set ''0123456789abcdef''"

definition digest :: "string \<Rightarrow> bool" where
  "digest h \<longleftrightarrow> length h = 40 \<and> list_all hex_digit h"

definition digest_keys :: "(string \<rightharpoonup> string) \<Rightarrow> bool" where
  "digest_keys st \<longleftrightarrow> (\<forall>k. st k \<noteq> None \<longrightarrow> digest k)"

text \<open>
  A \<open>Commit\<close>; the timestamp is kept in its ISO form, and \<open>hash\<close> is \<open>None\<close> until
  \<open>get_commit\<close> sets it.
\<close>

record Commit =
  tree_hash :: string
  parent_hash :: "string option"
  message :: string
  author :: string
  timestamp :: string
  hash :: "string option"

text \<open>What the repository stores: commits, tree dictionaries and file contents.\<close>

datatype obj = CommitObj Commit | DictObj tree_dict | BytesObj string

type_synonym store = "string \<rightharpoonup> string"

definition store_object ::
  "(string \<Rightarrow> string) \<Rightarrow> (obj \<Rightarrow> string) \<Rightarrow> store \<Rightarrow> obj \<Rightarrow> store \<times> string" where
  "store_object sha1 dumps st ob =
     (let serialized = dumps ob;
          obj_hash = sha1 serialized
      in (if st obj_hash = None then st(obj_hash \<mapsto> serialized) else st, obj_hash))"

definition retrieve_object ::
  "(string \<Rightarrow> obj option) \<Rightarrow> store \<Rightarrow> string \<Rightarrow> error + obj" where
  "retrieve_object loads st obj_hash =
     (case st obj_hash of
        None \<Rightarrow> Inl FileNotFoundError
      | Some serialized \<Rightarrow>
          (case loads serialized of
             None \<Rightarrow> Inl UnpicklingError
           | Some ob \<Rightarrow> Inr ob))"

section \<open>Commit graph (src/commit.py)\<close>

text \<open>
  \<open>get_commit\<close> sets the attribute \<open>hash\<close> of the object it retrieved; on a dictionary or
  on bytes that assignment raises \<open>AttributeError\<close>.
\<close>

definition get_commit ::
  "(string \<Rightarrow> obj option) \<Rightarrow> store \<Rightarrow> string \<Rightarrow> error + Commit" where
  "get_commit loads st commit_hash =
     (case retrieve_object loads st commit_hash of
        Inl e \<Rightarrow> Inl e
      | Inr ob \<Rightarrow>
          (case ob of
             CommitObj commit \<Rightarrow> Inr (commit\<lparr>hash := Some commit_hash\<rparr>)
           | _ \<Rightarrow> Inl AttributeError))"

text \<open>
  The loops follow parent links for as long as the store leads them; on a store whose
  links form a cycle they do not return, which is the result \<open>None\<close> of the model.
  \<open>while current_hash is not None\<close> stops at \<open>None\<close> only; \<open>if max_count and ...\<close> tests
  that \<open>max_count\<close> is neither \<open>None\<close> nor \<open>0\<close>.
\<close>

partial_function (option) history_loop ::
  "(string \<Rightarrow> obj option) \<Rightarrow> store \<Rightarrow> int option \<Rightarrow> string option \<Rightarrow> int \<Rightarrow> Commit list
     \<Rightarrow> (error + Commit list) option" where
  "history_loop loads st max_count current_hash count history =
     (case current_hash of
        None \<Rightarrow> Some (Inr history)
      | Some h \<Rightarrow>
          if (case max_count of None \<Rightarrow> False | Some m \<Rightarrow> m \<noteq> 0 \<and> count \<ge> m)
          then Some (Inr history)
          else
            (case get_commit loads st h of
               Inl e \<Rightarrow> Some (Inl e)
             | Inr commit \<Rightarrow>
                 history_loop loads st max_count (parent_hash commit) (count + 1)
                   (history @ [commit])))"

definition get_commit_history ::
  "(string \<Rightarrow> obj option) \<Rightarrow> store \<Rightarrow> string \<Rightarrow> int option \<Rightarrow> (error + Commit list) option" where
  "get_commit_history loads st commit_hash max_count =
     history_loop loads st max_count (Some commit_hash) 0 []"

text \<open>\<open>while current\<close>: an \<open>Optional[str]\<close> is truthy when it is a non-empty string.\<close>

definition truthy :: "string option \<Rightarrow> bool" where
  "truthy current = (case current of None \<Rightarrow> False | Some h \<Rightarrow> h \<noteq> [])"

partial_function (option) ancestors_loop ::
  "(string \<Rightarrow> obj option) \<Rightarrow> store \<Rightarrow> string option \<Rightarrow> string set
     \<Rightarrow> (error + string set) option" where
  "ancestors_loop loads st current ancestors1 =
     (if truthy current then
        (case get_commit loads st (the current) of
           Inl e \<Rightarrow> Some (Inl e)
         | Inr commit \<Rightarrow>
             ancestors_loop loads st (parent_hash commit) (insert (the current) ancestors1))
      else Some (Inr ancestors1))"

partial_function (option) search_loop ::
  "(string \<Rightarrow> obj option) \<Rightarrow> store \<Rightarrow> string set \<Rightarrow> string option
     \<Rightarrow> (error + string option) option" where
  "search_loop loads st ancestors1 current =
     (if truthy current then
        if the current \<in> ancestors1 then Some (Inr current)
        else
          (case get_commit loads st (the current) of
             Inl e \<Rightarrow> Some (Inl e)
           | Inr commit \<Rightarrow> search_loop loads st ancestors1 (parent_hash commit))
      else Some (Inr None))"

definition find_common_ancestor ::
  "(string \<Rightarrow> obj option) \<Rightarrow> store \<Rightarrow> string \<Rightarrow> string \<Rightarrow> (error + string option) option" where
  "find_common_ancestor loads st commit1_hash commit2_hash =
     (case ancestors_loop loads st (Some commit1_hash) {} of
        None \<Rightarrow> None
      | Some (Inl e) \<Rightarrow> Some (Inl e)
      | Some (Inr ancestors1) \<Rightarrow> search_loop loads st ancestors1 (Some commit2_hash))"

partial_function (option) count_loop ::
  "(string \<Rightarrow> obj option) \<Rightarrow> store \<Rightarrow> string option \<Rightarrow> int \<Rightarrow> (error + int) option" where
  "count_loop loads st current count =
     (if truthy current then
        (case get_commit loads st (the current) of
           Inl e \<Rightarrow> Some (Inl e)
         | Inr commit \<Rightarrow> count_loop loads st (parent_hash commit) (count + 1))
      else Some (Inr count))"

definition get_commit_count ::
  "(string \<Rightarrow> obj option) \<Rightarrow> store \<Rightarrow> string \<Rightarrow> (error + int) option" where
  "get_commit_count loads st commit_hash = count_loop loads st (Some commit_hash) 0"

text \<open>
  The parent chain of a hash, read from the store: \<open>is_chain loads st h cs\<close> holds when
  following parent links from \<open>h\<close> retrieves exactly the commits \<open>cs\<close>, child first, every
  hash a non-empty string, and the last commit has no parent.
\<close>

fun is_chain :: "(string \<Rightarrow> obj option) \<Rightarrow> store \<Rightarrow> string \<Rightarrow> Commit list \<Rightarrow> bool" where
  "is_chain loads st h [] = False"
| "is_chain loads st h [c] =
     (h \<noteq> [] \<and> get_commit loads st h = Inr c \<and> parent_hash c = None)"
| "is_chain loads st h (c # cs) =
     (h \<noteq> [] \<and> get_commit loads st h = Inr c \<and>
      (case parent_hash c of None \<Rightarrow> False | Some p \<Rightarrow> is_chain loads st p cs))"

text \<open>
  \<open>reaches_missing loads st h n\<close>: following \<open>n\<close> parent links from \<open>h\<close>, through commits
  that are in the store, leads to a digest that is not in the store.
\<close>

fun reaches_missing :: "(string \<Rightarrow> obj option) \<Rightarrow> store \<Rightarrow> string \<Rightarrow> nat \<Rightarrow> bool" where
  "reaches_missing loads st h 0 = (digest h \<and> st h = None)"
| "reaches_missing loads st h (Suc n) =
     (h \<noteq> [] \<and>
      (case get_commit loads st h of
         Inl e \<Rightarrow> False
       | Inr c \<Rightarrow> (case parent_hash c of None \<Rightarrow> False | Some p \<Rightarrow> reaches_missing loads st p n)))"

text \<open>The hashes of the commits of a chain, as \<open>get_commit\<close> has set them.\<close>

definition hashes :: "Commit list \<Rightarrow> string list" where
  "hashes cs = map (\<lambda>c. the (hash c)) cs"

text \<open>
  \<open>within_limit max_count n\<close>: a walk under the limit \<open>max_count\<close> gets as far as the hash
  \<open>n\<close> parent links away from its start.
\<close>

definition within_limit :: "int option \<Rightarrow> nat \<Rightarrow> bool" where
  "within_limit max_count n = (case max_count of None \<Rightarrow> True | Some m \<Rightarrow> int n < m)"

text \<open>
  \<open>content_addressed sha1 st\<close>: every file of the store lies under the digest of its
  bytes, as in every store that only \<open>store_object\<close> has written to.
\<close>

definition content_addressed :: "(string \<Rightarrow> string) \<Rightarrow> store \<Rightarrow> bool" where
  "content_addressed sha1 st = (\<forall>k s. st k = Some s \<longrightarrow> k = sha1 s)"

subsection \<open>A small history\<close>

text \<open>
  The history \<open>A \<rightarrow> B \<rightarrow> C\<close> with the second branch \<open>C \<rightarrow> D\<close> and the unrelated root
  \<open>X\<close>, each commit stored under its letter. \<open>broken_store\<close> has digests for keys: it holds
  the root \<open>digest_X\<close>, and \<open>digest_B\<close> without its parent \<open>digest_A\<close>.
\<close>

definition mk_commit :: "string option \<Rightarrow> Commit" where
  "mk_commit parent =
     \<lparr>tree_hash = ''t'', parent_hash = parent, message = ''m'', author = ''ann'',
      timestamp = ''2024-01-01T00:00:00'', hash = None\<rparr>"

definition stored :: "string option \<Rightarrow> string \<Rightarrow> Commit" where
  "stored parent h = (mk_commit parent)\<lparr>hash := Some h\<rparr>"

definition example_loads :: "string \<Rightarrow> obj option" where
  "example_loads s =
     (if s = ''root'' then Some (CommitObj (mk_commit None))
      else if s = ''onA'' then Some (CommitObj (mk_commit (Some ''A'')))
      else if s = ''onB'' then Some (CommitObj (mk_commit (Some ''B'')))
      else if s = ''onC'' then Some (CommitObj (mk_commit (Some ''C'')))
      else None)"

definition example_store :: store where
  "example_store =
     [''A'' \<mapsto> ''root'', ''B'' \<mapsto> ''onA'', ''C'' \<mapsto> ''onB'', ''D'' \<mapsto> ''onC'', ''X'' \<mapsto> ''root'']"

text \<open>A stand-in digest and a stand-in pickler, to run \<open>store_object\<close> on.\<close>

definition example_sha1 :: "string \<Rightarrow> string" where
  "example_sha1 s = ''#'' @ s"

definition example_dumps :: "obj \<Rightarrow> string" where
  "example_dumps ob = (case ob of BytesObj b \<Rightarrow> ''b:'' @ b | _ \<Rightarrow> ''other'')"

definition digest_A :: string where
  "digest_A = replicate 40 (CHR ''a'')"

definition digest_B :: string where
  "digest_B = replicate 40 (CHR ''b'')"

definition digest_X :: string where
  "digest_X = replicate 40 (CHR ''c'')"

definition broken_loads :: "string \<Rightarrow> obj option" where
  "broken_loads s =
     (if s = ''root'' then Some (CommitObj (mk_commit None))
      else if s = ''onA'' then Some (CommitObj (mk_commit (Some digest_A)))
      else None)"

definition broken_store :: store where
  "broken_store = [digest_B \<mapsto> ''onA'', digest_X \<mapsto> ''root'']"

section \<open>Theorems: merge engine\<close>

lemma merge_files_all_absent: "merge_files p None None None = (None, None)"
  by (simp add: merge_files_def)

lemma merge_files_outcome:
  "(b, ou, t) \<noteq> (None, None, None) \<Longrightarrow>
     Some (outcome_of (merge_files p b ou t)) = spec_rules b ou t"
  by (cases b; cases ou; cases t)
     (auto simp: merge_files_def three_way_merge_def outcome_of_def)

lemma merge_files_conflict_path:
  "snd (merge_files p b ou t) = Some c \<Longrightarrow> file_path c = p"
  by (cases b; cases ou; cases t)
     (auto simp: merge_files_def three_way_merge_def split: if_splits)

text \<open>
  C1. For every path and every triple (base, ours, theirs) with at least one side
  present, \<open>merge_files\<close> gives the outcome of the eight-rule state machine of the
  specification: identical and unilateral additions are taken; both-deleted and
  deleted-on-one-side with the other side equal to base are dropped; divergent addition,
  delete against modify (either way) and divergent edit are conflicts, recorded under the
  path; with all three present, ours = theirs takes it, ours = base takes theirs,
  theirs = base takes ours.
\<close>

theorem merge_files_state_machine:
  "(b, ou, t) \<noteq> (None, None, None) \<longrightarrow>
     Some (outcome_of (merge_files p b ou t)) = spec_rules b ou t \<and>
     (\<forall>c. snd (merge_files p b ou t) = Some c \<longrightarrow> file_path c = p)"
  using merge_files_outcome [of b ou t p] merge_files_conflict_path [of p b ou t]
  by blast

theorem merge_files_state_machine_witness:
  "(Some ''x'', Some ''y'', Some ''z'') \<noteq> (None, None, None) \<and>
   outcome_of (merge_files ''f'' (Some ''x'') (Some ''y'') (Some ''z'')) = Conflict \<and>
   snd (merge_files ''f'' (Some ''x'') (Some ''y'') (Some ''z'')) =
     Some \<lparr>file_path = ''f'', base = ''x'', ours = ''y'', theirs = ''z''\<rparr> \<and>
   outcome_of (merge_files ''f'' (Some ''x'') (Some ''y'') (Some ''x'')) = Take ''y'' \<and>
   outcome_of (merge_files ''f'' (Some ''x'') None (Some ''x'')) = Drop"
  using merge_files_state_machine [of "Some ''x''" "Some ''y''" "Some ''z''" "''f''"]
        merge_files_state_machine [of "Some ''x''" "Some ''y''" "Some ''x''" "''f''"]
        merge_files_state_machine [of "Some ''x''" "None" "Some ''x''" "''f''"]
  by (simp add: merge_files_def three_way_merge_def outcome_of_def)

lemma merge_step_merged_files:
  "merged_files (merge_step bf ofs tf q r) p =
     (if q = p then
        (case outcome_of (merge_files q (bf q) (ofs q) (tf q)) of
           Take taken \<Rightarrow> Some taken
         | _ \<Rightarrow> merged_files r p)
      else merged_files r p)"
  by (auto simp: merge_step_def outcome_of_def add_conflict_def add_merged_file_def
           split: prod.splits option.splits)

lemma merge_step_conflicts:
  "set (conflicts (merge_step bf ofs tf q r)) =
     set (conflicts r) \<union> {c. snd (merge_files q (bf q) (ofs q) (tf q)) = Some c}"
  by (auto simp: merge_step_def add_conflict_def add_merged_file_def
           split: prod.splits option.splits)

lemma fold_merge_step_merged_files:
  "merged_files (fold (merge_step bf ofs tf) ps r) p =
     (if p \<in> set ps then
        (case outcome_of (merge_files p (bf p) (ofs p) (tf p)) of
           Take taken \<Rightarrow> Some taken
         | _ \<Rightarrow> merged_files r p)
      else merged_files r p)"
proof (induction ps arbitrary: r)
  case Nil
  show ?case by simp
next
  case (Cons q ps)
  show ?case
    by (simp add: Cons.IH merge_step_merged_files split: outcome.splits)
qed

lemma fold_merge_step_conflicts:
  "set (conflicts (fold (merge_step bf ofs tf) ps r)) =
     set (conflicts r) \<union>
     {c. \<exists>q \<in> set ps. snd (merge_files q (bf q) (ofs q) (tf q)) = Some c}"
proof (induction ps arbitrary: r)
  case Nil
  show ?case by simp
next
  case (Cons q ps)
  show ?case
    by (auto simp: Cons.IH merge_step_conflicts)
qed

text \<open>
  C9. Absence is \<open>None\<close> and differs from the empty string. A side whose content is
  the empty string is classified by the rules as a present side; a path absent from base
  and theirs whose content in ours is the empty string is merged by \<open>merge_files\<close> with
  empty content and no conflict, and \<open>perform_merge\<close> records it in \<open>merged_files\<close>
  with empty content and records no conflict for it.
\<close>

theorem empty_content_is_present:
  "merge_files p None (Some []) None = (Some [], None) \<and>
   merge_files p None None None = (None, None) \<and>
   (b = Some [] \<or> ou = Some [] \<or> t = Some [] \<longrightarrow>
      Some (outcome_of (merge_files p b ou t)) = spec_rules b ou t) \<and>
   (paths_of all_paths bf ofs tf \<and> bf p = None \<and> ofs p = Some [] \<and> tf p = None \<longrightarrow>
      merged_files (perform_merge all_paths bf ofs tf) p = Some [] \<and>
      (\<forall>c \<in> set (conflicts (perform_merge all_paths bf ofs tf)). file_path c \<noteq> p))"
proof (intro conjI impI)
  show "merge_files p None (Some []) None = (Some [], None)"
    by (simp add: merge_files_def)
  show "merge_files p None None None = (None, None)"
    by (rule merge_files_all_absent)
next
  assume "b = Some [] \<or> ou = Some [] \<or> t = Some []"
  then have "(b, ou, t) \<noteq> (None, None, None)" by auto
  then show "Some (outcome_of (merge_files p b ou t)) = spec_rules b ou t"
    by (rule merge_files_outcome)
next
  assume h: "paths_of all_paths bf ofs tf \<and> bf p = None \<and> ofs p = Some [] \<and> tf p = None"
  then have mem: "p \<in> set all_paths"
    by (auto simp: paths_of_def)
  have mf: "merge_files p (bf p) (ofs p) (tf p) = (Some [], None)"
    using h by (simp add: merge_files_def)
  show "merged_files (perform_merge all_paths bf ofs tf) p = Some []"
    using mem mf
    by (simp add: perform_merge_def fold_merge_step_merged_files outcome_of_def)
  show "\<forall>c \<in> set (conflicts (perform_merge all_paths bf ofs tf)). file_path c \<noteq> p"
  proof
    fix c
    assume "c \<in> set (conflicts (perform_merge all_paths bf ofs tf))"
    then obtain q where q: "snd (merge_files q (bf q) (ofs q) (tf q)) = Some c"
      by (auto simp: perform_merge_def fold_merge_step_conflicts new_result_def)
    then have fp: "file_path c = q"
      by (rule merge_files_conflict_path)
    show "file_path c \<noteq> p"
    proof
      assume "file_path c = p"
      with fp q mf show False by simp
    qed
  qed
qed

theorem empty_content_is_present_witness:
  "paths_of [''e'', ''g''] [''g'' \<mapsto> ''x''] [''e'' \<mapsto> [], ''g'' \<mapsto> ''y''] [''g'' \<mapsto> ''z''] \<and>
   merged_files (perform_merge [''e'', ''g''] [''g'' \<mapsto> ''x''] [''e'' \<mapsto> [], ''g'' \<mapsto> ''y'']
                   [''g'' \<mapsto> ''z'']) ''e'' = Some [] \<and>
   map file_path (conflicts (perform_merge [''e'', ''g''] [''g'' \<mapsto> ''x'']
                   [''e'' \<mapsto> [], ''g'' \<mapsto> ''y''] [''g'' \<mapsto> ''z''])) = [''g''] \<and>
   outcome_of (merge_files ''e'' (Some []) (Some ''y'') (Some [])) = Take ''y''"
proof -
  have p: "paths_of [''e'', ''g''] [''g'' \<mapsto> ''x''] [''e'' \<mapsto> [], ''g'' \<mapsto> ''y''] [''g'' \<mapsto> ''z'']"
    by (auto simp: paths_of_def)
  have c: "map file_path (conflicts (perform_merge [''e'', ''g''] [''g'' \<mapsto> ''x'']
                   [''e'' \<mapsto> [], ''g'' \<mapsto> ''y''] [''g'' \<mapsto> ''z''])) = [''g'']"
    by (simp add: perform_merge_def merge_step_def merge_files_def three_way_merge_def
                  new_result_def add_conflict_def add_merged_file_def)
  show ?thesis
    using p c
      empty_content_is_present [of "''e''" "Some []" "Some ''y''" "Some []" "[''e'', ''g'']"
        "[''g'' \<mapsto> ''x'']" "[''e'' \<mapsto> [], ''g'' \<mapsto> ''y'']" "[''g'' \<mapsto> ''z'']"]
    by simp
qed

section \<open>Theorems: commit graph\<close>

lemma get_commit_missing: "st h = None \<Longrightarrow> get_commit loads st h = Inl FileNotFoundError"
  by (simp add: get_commit_def retrieve_object_def)

lemma get_commit_hash: "get_commit loads st h = Inr c \<Longrightarrow> hash c = Some h"
  by (auto simp: get_commit_def split: sum.splits obj.splits)

lemma get_commit_present: "get_commit loads st h = Inr c \<Longrightarrow> st h \<noteq> None"
  by (auto simp: get_commit_def retrieve_object_def split: option.splits)

lemma is_chain_Cons:
  "is_chain loads st h (c # cs) \<longleftrightarrow>
     h \<noteq> [] \<and> get_commit loads st h = Inr c \<and>
     (case parent_hash c of None \<Rightarrow> cs = [] | Some p \<Rightarrow> is_chain loads st p cs)"
  by (cases cs) (auto split: option.splits)

lemma history_loop_chain:
  "is_chain loads st h cs \<Longrightarrow>
   history_loop loads st mc (Some h) cnt hist =
     Some (Inr (hist @ (case mc of
                          None \<Rightarrow> cs
                        | Some m \<Rightarrow> if m = 0 then cs else take (nat (m - cnt)) cs)))"
proof (induction cs arbitrary: h cnt hist)
  case Nil
  then show ?case by simp
next
  case (Cons c cs)
  from Cons.prems have h: "h \<noteq> []" and g: "get_commit loads st h = Inr c"
    and rest: "case parent_hash c of None \<Rightarrow> cs = [] | Some p \<Rightarrow> is_chain loads st p cs"
    by (simp_all add: is_chain_Cons)
  show ?case
  proof (cases "case mc of None \<Rightarrow> False | Some m \<Rightarrow> m \<noteq> 0 \<and> cnt \<ge> m")
    case True
    then show ?thesis
      by (subst history_loop.simps) (auto split: option.splits)
  next
    case False
    show ?thesis
    proof (cases "parent_hash c")
      case None
      with rest have "cs = []" by simp
      with False g None show ?thesis
        by (subst history_loop.simps, simp, subst history_loop.simps)
           (auto split: option.splits simp: take_Cons')
    next
      case (Some p)
      with rest have "is_chain loads st p cs" by simp
      have ar: "\<And>m. nat (m - (cnt + 1)) = nat (m - cnt) - Suc 0" by arith
      from Cons.IH [OF \<open>is_chain loads st p cs\<close>, of "cnt + 1" "hist @ [c]"] False g Some
      show ?thesis
        by (subst history_loop.simps) (auto split: option.splits simp: take_Cons' ar)
    qed
  qed
qed

lemma count_loop_chain:
  "is_chain loads st h cs \<Longrightarrow>
   count_loop loads st (Some h) cnt = Some (Inr (cnt + int (length cs)))"
proof (induction cs arbitrary: h cnt)
  case Nil
  then show ?case by simp
next
  case (Cons c cs)
  from Cons.prems have h: "h \<noteq> []" and g: "get_commit loads st h = Inr c"
    and rest: "case parent_hash c of None \<Rightarrow> cs = [] | Some p \<Rightarrow> is_chain loads st p cs"
    by (simp_all add: is_chain_Cons)
  show ?case
  proof (cases "parent_hash c")
    case None
    with rest have "cs = []" by simp
    with h g None show ?thesis
      by (subst count_loop.simps, simp add: truthy_def, subst count_loop.simps)
         (simp add: truthy_def)
  next
    case (Some p)
    with rest have "is_chain loads st p cs" by simp
    from Cons.IH [OF this, of "cnt + 1"] h g Some show ?thesis
      by (subst count_loop.simps) (simp add: truthy_def)
  qed
qed


lemma is_chain_head: "is_chain loads st h (c # cs) \<Longrightarrow> the (hash c) = h"
  by (auto simp: is_chain_Cons dest: get_commit_hash)

lemma ancestors_loop_chain:
  "is_chain loads st h cs \<Longrightarrow>
   ancestors_loop loads st (Some h) acc = Some (Inr (acc \<union> set (hashes cs)))"
proof (induction cs arbitrary: h acc)
  case Nil
  then show ?case by simp
next
  case (Cons c cs)
  from Cons.prems have h: "h \<noteq> []" and g: "get_commit loads st h = Inr c"
    and rest: "case parent_hash c of None \<Rightarrow> cs = [] | Some p \<Rightarrow> is_chain loads st p cs"
    by (simp_all add: is_chain_Cons)
  have hd: "the (hash c) = h" using Cons.prems by (rule is_chain_head)
  show ?case
  proof (cases "parent_hash c")
    case None
    with rest have "cs = []" by simp
    with h g None hd show ?thesis
      by (subst ancestors_loop.simps, simp add: truthy_def, subst ancestors_loop.simps)
         (simp add: truthy_def hashes_def)
  next
    case (Some p)
    with rest have "is_chain loads st p cs" by simp
    from Cons.IH [OF this, of "insert h acc"] h g Some hd show ?thesis
      by (subst ancestors_loop.simps) (simp add: truthy_def hashes_def)
  qed
qed

lemma search_loop_chain:
  "is_chain loads st h cs \<Longrightarrow>
   search_loop loads st S (Some h) = Some (Inr (find (\<lambda>x. x \<in> S) (hashes cs)))"
proof (induction cs arbitrary: h)
  case Nil
  then show ?case by simp
next
  case (Cons c cs)
  from Cons.prems have h: "h \<noteq> []" and g: "get_commit loads st h = Inr c"
    and rest: "case parent_hash c of None \<Rightarrow> cs = [] | Some p \<Rightarrow> is_chain loads st p cs"
    by (simp_all add: is_chain_Cons)
  have hd: "the (hash c) = h" using Cons.prems by (rule is_chain_head)
  show ?case
  proof (cases "h \<in> S")
    case True
    with h hd show ?thesis
      by (subst search_loop.simps) (simp add: truthy_def hashes_def)
  next
    case False
    show ?thesis
    proof (cases "parent_hash c")
      case None
      with rest have "cs = []" by simp
      with h g None hd False show ?thesis
        by (subst search_loop.simps, simp add: truthy_def, subst search_loop.simps)
           (simp add: truthy_def hashes_def)
    next
      case (Some p)
      with rest have "is_chain loads st p cs" by simp
      from Cons.IH [OF this] h g Some hd False show ?thesis
        by (subst search_loop.simps) (simp add: truthy_def hashes_def)
    qed
  qed
qed

lemma find_None_disjoint: "find (\<lambda>x. x \<in> S) xs = None \<longleftrightarrow> S \<inter> set xs = {}"
  by (auto simp: find_None_iff)

lemma digest_nonempty: "digest h \<Longrightarrow> h \<noteq> []"
  by (auto simp: digest_def)

lemma count_loop_missing:
  "reaches_missing loads st h n \<Longrightarrow> count_loop loads st (Some h) cnt = Some (Inl FileNotFoundError)"
proof (induction n arbitrary: h cnt)
  case 0
  then show ?case
    by (subst count_loop.simps) (simp add: truthy_def get_commit_missing digest_nonempty)
next
  case (Suc n)
  then show ?case
    by (subst count_loop.simps) (auto simp: truthy_def split: sum.splits option.splits)
qed

lemma ancestors_loop_missing:
  "reaches_missing loads st h n \<Longrightarrow>
   ancestors_loop loads st (Some h) acc = Some (Inl FileNotFoundError)"
proof (induction n arbitrary: h acc)
  case 0
  then show ?case
    by (subst ancestors_loop.simps) (simp add: truthy_def get_commit_missing digest_nonempty)
next
  case (Suc n)
  then show ?case
    by (subst ancestors_loop.simps) (auto simp: truthy_def split: sum.splits option.splits)
qed

lemma history_loop_missing:
  "reaches_missing loads st h n \<Longrightarrow> (case mc of None \<Rightarrow> True | Some m \<Rightarrow> m = 0 \<or> cnt + int n < m) \<Longrightarrow>
   history_loop loads st mc (Some h) cnt hist = Some (Inl FileNotFoundError)"
proof (induction n arbitrary: h cnt hist)
  case 0
  then show ?case
    by (subst history_loop.simps)
       (auto simp: get_commit_missing split: option.splits)
next
  case (Suc n)
  from Suc.prems(1) obtain c p where g: "get_commit loads st h = Inr c"
    and p: "parent_hash c = Some p" and r: "reaches_missing loads st p n"
    by (auto split: sum.splits option.splits)
  from Suc.prems(2)
  have l: "case mc of None \<Rightarrow> True | Some m \<Rightarrow> m = 0 \<or> cnt + 1 + int n < m"
    by (auto split: option.splits)
  from Suc.prems(2) have nl: "\<not> (case mc of None \<Rightarrow> False | Some m \<Rightarrow> m \<noteq> 0 \<and> cnt \<ge> m)"
    by (auto split: option.splits)
  from Suc.IH [OF r l, of "hist @ [c]"] g p nl show ?case
    by (subst history_loop.simps) simp
qed

lemma chain_not_missing:
  "is_chain loads st h cs \<Longrightarrow> \<not> reaches_missing loads st h n"
proof (induction n arbitrary: h cs)
  case 0
  then show ?case
    by (cases cs) (auto simp: is_chain_Cons dest: get_commit_present)
next
  case (Suc n)
  then show ?case
    by (cases cs) (auto simp: is_chain_Cons split: option.splits)
qed

lemma chain_suffix:
  "is_chain loads st h cs \<Longrightarrow> x \<in> set (hashes cs) \<Longrightarrow> \<exists>cs'. is_chain loads st x cs'"
proof (induction cs arbitrary: h)
  case Nil
  then show ?case by simp
next
  case (Cons c cs)
  have hd: "the (hash c) = h" using Cons.prems(1) by (rule is_chain_head)
  show ?case
  proof (cases "x = h")
    case True
    with Cons.prems(1) show ?thesis by blast
  next
    case False
    with Cons.prems(2) hd have x: "x \<in> set (hashes cs)" by (simp add: hashes_def)
    then have "cs \<noteq> []" by (auto simp: hashes_def)
    with Cons.prems(1) obtain p where "is_chain loads st p cs"
      by (auto simp: is_chain_Cons split: option.splits)
    from Cons.IH [OF this x] show ?thesis .
  qed
qed

lemma search_loop_missing:
  assumes a: "is_chain loads st a cs"
  shows "reaches_missing loads st b n \<Longrightarrow>
         search_loop loads st (set (hashes cs)) (Some b) = Some (Inl FileNotFoundError)"
proof (induction n arbitrary: b)
  case 0
  have "b \<notin> set (hashes cs)"
    using chain_suffix [OF a] chain_not_missing "0.prems" by blast
  with "0.prems" show ?case
    by (subst search_loop.simps) (simp add: truthy_def get_commit_missing digest_nonempty)
next
  case (Suc n)
  have nb: "b \<notin> set (hashes cs)"
    using chain_suffix [OF a] chain_not_missing Suc.prems by blast
  from Suc.prems obtain c p where g: "get_commit loads st b = Inr c"
    and p: "parent_hash c = Some p" and r: "reaches_missing loads st p n" and b: "b \<noteq> []"
    by (auto split: sum.splits option.splits)
  from Suc.IH [OF r] nb g p b show ?case
    by (subst search_loop.simps) (simp add: truthy_def)
qed


lemma get_commit_history_chain:
  "is_chain loads st h cs \<Longrightarrow>
   get_commit_history loads st h None = Some (Inr cs) \<and>
   (0 < m \<longrightarrow> get_commit_history loads st h (Some m) = Some (Inr (take (nat m) cs))) \<and>
   get_commit_history loads st h (Some 0) = Some (Inr cs) \<and>
   get_commit_count loads st h = Some (Inr (int (length cs)))"
  by (simp add: get_commit_history_def get_commit_count_def history_loop_chain count_loop_chain)

lemma example_chain_D:
  "is_chain example_loads example_store ''D''
     [stored (Some ''C'') ''D'', stored (Some ''B'') ''C'', stored (Some ''A'') ''B'',
      stored None ''A'']"
  by (simp add: get_commit_def retrieve_object_def example_loads_def example_store_def
                stored_def mk_commit_def)

lemma example_chain_C:
  "is_chain example_loads example_store ''C''
     [stored (Some ''B'') ''C'', stored (Some ''A'') ''B'', stored None ''A'']"
  by (simp add: get_commit_def retrieve_object_def example_loads_def example_store_def
                stored_def mk_commit_def)

lemma example_chain_X:
  "is_chain example_loads example_store ''X'' [stored None ''X'']"
  by (simp add: get_commit_def retrieve_object_def example_loads_def example_store_def
                stored_def mk_commit_def)

text \<open>
  C3. For two hashes whose parent chains end at a commit without parent (\<open>is_chain\<close>;
  the hashes on them are digests, hence non-empty strings),
  \<open>find_common_ancestor\<close> collects the hashes of the whole chain of the first (itself
  included) and returns the first hash on the chain of the second that is in that set; it
  returns \<open>None\<close> exactly when the chains share no commit. For the history
  \<open>A \<rightarrow> B \<rightarrow> C\<close> with the branch \<open>C \<rightarrow> D\<close>, the ancestor of \<open>D\<close> and \<open>C\<close> is \<open>C\<close>.
\<close>

theorem find_common_ancestor_chains:
  "(is_chain loads st a cs1 \<and> is_chain loads st b cs2 \<longrightarrow>
      ancestors_loop loads st (Some a) {} = Some (Inr (set (hashes cs1))) \<and>
      a \<in> set (hashes cs1) \<and>
      find_common_ancestor loads st a b =
        Some (Inr (find (\<lambda>h. h \<in> set (hashes cs1)) (hashes cs2))) \<and>
      (find_common_ancestor loads st a b = Some (Inr None) \<longleftrightarrow>
         set (hashes cs1) \<inter> set (hashes cs2) = {})) \<and>
   (is_chain loads st d [cD, cC, cB, cA] \<longrightarrow>
      find_common_ancestor loads st d (the (hash cC)) = Some (Inr (hash cC)))"
proof (intro conjI impI)
  assume h: "is_chain loads st a cs1 \<and> is_chain loads st b cs2"
  then have ca: "is_chain loads st a cs1" and cb: "is_chain loads st b cs2" by simp_all
  show anc: "ancestors_loop loads st (Some a) {} = Some (Inr (set (hashes cs1)))"
    using ancestors_loop_chain [OF ca, of "{}"] by simp
  show "a \<in> set (hashes cs1)"
    using ca by (cases cs1) (auto simp: hashes_def dest: is_chain_head)
  show fca: "find_common_ancestor loads st a b =
        Some (Inr (find (\<lambda>h. h \<in> set (hashes cs1)) (hashes cs2)))"
    by (simp add: find_common_ancestor_def anc search_loop_chain [OF cb])
  show "find_common_ancestor loads st a b = Some (Inr None) \<longleftrightarrow>
         set (hashes cs1) \<inter> set (hashes cs2) = {}"
    by (simp add: fca find_None_disjoint)
next
  assume cd: "is_chain loads st d [cD, cC, cB, cA]"
  then obtain p where p: "is_chain loads st p [cC, cB, cA]"
    by (auto simp: is_chain_Cons split: option.splits)
  have hp: "the (hash cC) = p" using p by (rule is_chain_head)
  have hc: "hash cC = Some p"
    using p by (auto simp: is_chain_Cons dest: get_commit_hash)
  have "p \<in> set (hashes [cD, cC, cB, cA])"
    using hp by (simp add: hashes_def)
  then show "find_common_ancestor loads st d (the (hash cC)) = Some (Inr (hash cC))"
    using ancestors_loop_chain [OF cd, of "{}"] search_loop_chain [OF p] hp hc
    by (simp add: find_common_ancestor_def hashes_def)
qed

theorem find_common_ancestor_chains_witness:
  "is_chain example_loads example_store ''D''
     [stored (Some ''C'') ''D'', stored (Some ''B'') ''C'', stored (Some ''A'') ''B'',
      stored None ''A''] \<and>
   is_chain example_loads example_store ''C''
     [stored (Some ''B'') ''C'', stored (Some ''A'') ''B'', stored None ''A''] \<and>
   is_chain example_loads example_store ''X'' [stored None ''X''] \<and>
   find_common_ancestor example_loads example_store ''D'' ''C'' = Some (Inr (Some ''C'')) \<and>
   find_common_ancestor example_loads example_store ''C'' ''D'' = Some (Inr (Some ''C'')) \<and>
   find_common_ancestor example_loads example_store ''X'' ''D'' = Some (Inr None)"
  using example_chain_D example_chain_C example_chain_X
    find_common_ancestor_chains [where loads = example_loads and st = example_store
      and a = "''D''" and b = "''C''"
      and ?cs1.0 = "[stored (Some ''C'') ''D'', stored (Some ''B'') ''C'',
                     stored (Some ''A'') ''B'', stored None ''A'']"
      and ?cs2.0 = "[stored (Some ''B'') ''C'', stored (Some ''A'') ''B'', stored None ''A'']"
      and d = "''D''" and cD = "stored (Some ''C'') ''D''" and cC = "stored (Some ''B'') ''C''"
      and cB = "stored (Some ''A'') ''B''" and cA = "stored None ''A''"]
    find_common_ancestor_chains [where loads = example_loads and st = example_store
      and a = "''C''" and b = "''D''"
      and ?cs2.0 = "[stored (Some ''C'') ''D'', stored (Some ''B'') ''C'',
                     stored (Some ''A'') ''B'', stored None ''A'']"
      and ?cs1.0 = "[stored (Some ''B'') ''C'', stored (Some ''A'') ''B'', stored None ''A'']"
      and d = "''D''" and cD = "stored (Some ''C'') ''D''" and cC = "stored (Some ''B'') ''C''"
      and cB = "stored (Some ''A'') ''B''" and cA = "stored None ''A''"]
    find_common_ancestor_chains [where loads = example_loads and st = example_store
      and a = "''X''" and b = "''D''"
      and ?cs2.0 = "[stored (Some ''C'') ''D'', stored (Some ''B'') ''C'',
                     stored (Some ''A'') ''B'', stored None ''A'']"
      and ?cs1.0 = "[stored None ''X'']"
      and d = "''D''" and cD = "stored (Some ''C'') ''D''" and cC = "stored (Some ''B'') ''C''"
      and cB = "stored (Some ''A'') ''B''" and cA = "stored None ''A''"]
  by (simp add: hashes_def stored_def)


text \<open>
  C4. With the limit \<open>0\<close> the test \<open>if max_count and count >= max_count\<close> never stops
  the walk: on the chain of the three commits \<open>C\<close>, \<open>B\<close>, \<open>A\<close>,
  \<open>get_commit_history\<close> with \<open>max_count = 0\<close> returns all three commits and not
  \<open>min(0, 3) = 0\<close> of them. (\<open>get_commit_history_chain\<close>: with a positive limit \<open>m\<close>
  it returns the first \<open>min(m, N)\<close> commits of a chain of \<open>N\<close>, with no limit all \<open>N\<close>,
  child first, and \<open>get_commit_count\<close> returns \<open>N\<close>.)
\<close>

theorem get_commit_history_limit_zero:
  "get_commit_history example_loads example_store ''C'' (Some 0) =
     Some (Inr [stored (Some ''B'') ''C'', stored (Some ''A'') ''B'', stored None ''A'']) \<and>
   get_commit_history example_loads example_store ''C'' (Some 2) =
     Some (Inr [stored (Some ''B'') ''C'', stored (Some ''A'') ''B'']) \<and>
   get_commit_history example_loads example_store ''C'' None =
     Some (Inr [stored (Some ''B'') ''C'', stored (Some ''A'') ''B'', stored None ''A'']) \<and>
   get_commit_count example_loads example_store ''C'' = Some (Inr 3)"
  using get_commit_history_chain [OF example_chain_C, of 2]
  by simp

section \<open>Theorems: object store\<close>

lemma content_addressed_empty: "content_addressed sha1 Map.empty"
  by (simp add: content_addressed_def)

lemma content_addressed_store_object:
  "content_addressed sha1 st \<Longrightarrow> content_addressed sha1 (fst (store_object sha1 dumps st ob))"
  by (auto simp: content_addressed_def store_object_def Let_def)

lemma store_object_hash: "snd (store_object sha1 dumps st ob) = sha1 (dumps ob)"
  by (simp add: store_object_def Let_def)

lemma store_object_present: "fst (store_object sha1 dumps st ob) (sha1 (dumps ob)) \<noteq> None"
  by (simp add: store_object_def Let_def)

lemma store_object_again:
  "st (sha1 (dumps ob)) \<noteq> None \<Longrightarrow> fst (store_object sha1 dumps st ob) = st"
  by (auto simp: store_object_def Let_def)

lemma store_object_fst:
  "fst (store_object sha1 dumps st ob) =
     (if st (sha1 (dumps ob)) = None then st(sha1 (dumps ob) \<mapsto> dumps ob) else st)"
  by (simp add: store_object_def Let_def)

text \<open>
  C6. Storing the same object twice returns the same identifier both times and the
  second call leaves the store as the first left it. On a content-addressed store that
  holds no other payload under the digest of this one (no collision), the store then
  holds the payload under that identifier and under no other.
\<close>

theorem store_object_twice:
  "(let (st1, h1) = store_object sha1 dumps st ob;
        (st2, h2) = store_object sha1 dumps st1 ob
    in h1 = sha1 (dumps ob) \<and> h2 = h1 \<and> st2 = st1 \<and>
       (content_addressed sha1 st \<and> (\<forall>s. st (sha1 (dumps ob)) = Some s \<longrightarrow> s = dumps ob) \<longrightarrow>
          {k. st2 k = Some (dumps ob)} = {h1}))"
proof -
  define st1 where "st1 = fst (store_object sha1 dumps st ob)"
  define d where "d = sha1 (dumps ob)"
  have s1: "store_object sha1 dumps st ob = (st1, d)"
    unfolding st1_def d_def
    by (rule prod_eqI) (simp_all add: store_object_hash)
  have "st1 d \<noteq> None"
    unfolding st1_def d_def by (rule store_object_present)
  then have "fst (store_object sha1 dumps st1 ob) = st1"
    unfolding d_def by (rule store_object_again)
  then have s2: "store_object sha1 dumps st1 ob = (st1, d)"
    unfolding d_def by (intro prod_eqI) (simp_all add: store_object_hash)
  have one: "{k. st1 k = Some (dumps ob)} = {d}"
    if ca: "content_addressed sha1 st"
      and nc: "\<forall>s. st d = Some s \<longrightarrow> s = dumps ob"
  proof (rule set_eqI)
    fix k
    have ca1: "content_addressed sha1 st1"
      unfolding st1_def using ca by (rule content_addressed_store_object)
    have here: "st1 d = Some (dumps ob)"
    proof (cases "st d")
      case None
      then show ?thesis
        unfolding st1_def d_def by (simp add: store_object_fst)
    next
      case (Some s)
      with nc have "s = dumps ob" by blast
      with Some show ?thesis
        unfolding st1_def d_def by (simp add: store_object_fst)
    qed
    have only: "k = d" if "st1 k = Some (dumps ob)"
      using ca1 that unfolding content_addressed_def d_def by blast
    show "k \<in> {k. st1 k = Some (dumps ob)} \<longleftrightarrow> k \<in> {d}"
      using here only by blast
  qed
  show ?thesis
    unfolding s1 s2 Let_def prod.case d_def [symmetric]
    using one by blast
qed

theorem store_object_twice_witness:
  "content_addressed example_sha1 Map.empty \<and>
   store_object example_sha1 example_dumps Map.empty (BytesObj ''x'') =
     ([''#b:x'' \<mapsto> ''b:x''], ''#b:x'') \<and>
   store_object example_sha1 example_dumps [''#b:x'' \<mapsto> ''b:x''] (BytesObj ''x'') =
     ([''#b:x'' \<mapsto> ''b:x''], ''#b:x'') \<and>
   {k. [''#b:x'' \<mapsto> ''b:x''] k = Some ''b:x''} = {''#b:x''}"
proof -
  have d: "example_dumps (BytesObj ''x'') = ''b:x''"
    by (simp add: example_dumps_def)
  have h: "example_sha1 ''b:x'' = ''#b:x''"
    by (simp add: example_sha1_def)
  have s1: "store_object example_sha1 example_dumps Map.empty (BytesObj ''x'') =
     ([''#b:x'' \<mapsto> ''b:x''], ''#b:x'')"
    by (simp add: store_object_def Let_def d h)
  have s2: "store_object example_sha1 example_dumps [''#b:x'' \<mapsto> ''b:x''] (BytesObj ''x'') =
     ([''#b:x'' \<mapsto> ''b:x''], ''#b:x'')"
    by (simp add: store_object_def Let_def d h)
  have ca: "content_addressed example_sha1 Map.empty"
    by (rule content_addressed_empty)
  have nc: "\<forall>s. Map.empty (example_sha1 (example_dumps (BytesObj ''x''))) = Some s \<longrightarrow>
              s = example_dumps (BytesObj ''x'')"
    by simp
  have "{k. [''#b:x'' \<mapsto> ''b:x''] k = Some ''b:x''} = {''#b:x''}"
    using store_object_twice [of example_sha1 example_dumps Map.empty "BytesObj ''x''"] ca nc
    unfolding s1 s2 Let_def prod.case d by blast
  then show ?thesis
    using s1 s2 ca by blast
qed

section \<open>Theorems: failure on a missing object\<close>

lemma digest_keys_empty: "digest_keys Map.empty"
  by (simp add: digest_keys_def)

lemma digest_keys_store_object:
  "(\<And>s. digest (sha1 s)) \<Longrightarrow> digest_keys st \<Longrightarrow>
   digest_keys (fst (store_object sha1 dumps st ob))"
  by (auto simp: digest_keys_def store_object_def Let_def)

lemma digest_replicate: "hex_digit c \<Longrightarrow> digest (replicate 40 c)"
  by (simp add: digest_def list_all_iff)

lemma example_digests: "digest digest_A \<and> digest digest_B \<and> digest digest_X"
  by (simp add: digest_A_def digest_B_def digest_X_def digest_replicate hex_digit_def)

lemma example_digests_differ:
  "digest_A \<noteq> digest_B \<and> digest_A \<noteq> digest_X \<and> digest_B \<noteq> digest_X"
  by (simp add: digest_A_def digest_B_def digest_X_def)

lemma broken_store_keys: "digest_keys broken_store"
  using example_digests by (simp add: digest_keys_def broken_store_def)

lemma broken_store_A: "broken_store digest_A = None"
  using example_digests_differ by (simp add: broken_store_def)

lemma broken_commit_B:
  "get_commit broken_loads broken_store digest_B = Inr (stored (Some digest_A) digest_B)"
  using example_digests_differ
  by (simp add: get_commit_def retrieve_object_def broken_loads_def broken_store_def
                stored_def mk_commit_def)

lemma broken_chain_B: "reaches_missing broken_loads broken_store digest_B 1"
proof -
  have "reaches_missing broken_loads broken_store digest_A 0"
    using example_digests broken_store_A by simp
  moreover have "digest_B \<noteq> []"
    using example_digests by (simp add: digest_nonempty)
  moreover have "parent_hash (stored (Some digest_A) digest_B) = Some digest_A"
    by (simp add: stored_def mk_commit_def)
  ultimately have "reaches_missing broken_loads broken_store digest_B (Suc 0)"
    using broken_commit_B by simp
  then show ?thesis by simp
qed

lemma broken_chain_X: "is_chain broken_loads broken_store digest_X [stored None digest_X]"
proof -
  have "digest_X \<noteq> []"
    using example_digests by (simp add: digest_nonempty)
  then show ?thesis
    by (simp add: get_commit_def retrieve_object_def broken_loads_def broken_store_def
                  stored_def mk_commit_def)
qed

text \<open>
  C8, as stated, fails for \<open>get_commit_history\<close> under a limit: in \<open>broken_store\<close> the
  parent \<open>digest_A\<close> of the commit \<open>digest_B\<close> is absent, and the history of \<open>digest_B\<close>
  with limit \<open>1\<close> is the list of that one commit, not a failure.
\<close>

theorem history_limit_before_missing:
  "digest_keys broken_store \<and> digest digest_A \<and> digest digest_B \<and>
   broken_store digest_A = None \<and>
   get_commit broken_loads broken_store digest_B = Inr (stored (Some digest_A) digest_B) \<and>
   parent_hash (stored (Some digest_A) digest_B) = Some digest_A \<and>
   get_commit_history broken_loads broken_store digest_B (Some 1) =
     Some (Inr [stored (Some digest_A) digest_B])"
proof -
  note g = broken_commit_B
  have p: "parent_hash (stored (Some digest_A) digest_B) = Some digest_A"
    by (simp add: stored_def mk_commit_def)
  have "get_commit_history broken_loads broken_store digest_B (Some 1) =
     Some (Inr [stored (Some digest_A) digest_B])"
    unfolding get_commit_history_def
    by (subst history_loop.simps, simp add: g p, subst history_loop.simps, simp)
  then show ?thesis
    using g p broken_store_keys example_digests broken_store_A by blast
qed

text \<open>
  C8, amended. In a store whose keys are digests (as \<open>store_object\<close> leaves it,
  \<open>digest_keys_store_object\<close>), and for hashes that are digests (forty hexadecimal digits,
  the shape \<open>hash_content\<close> returns): \<open>retrieve_object\<close> returns the object unpickled
  from the stored bytes when the digest is present and fails with \<open>FileNotFoundError\<close>
  exactly when the digest is unknown. \<open>get_commit\<close> on an absent digest,
  \<open>get_commit_count\<close> and \<open>find_common_ancestor\<close> (on either argument, the chain of the
  other being complete or the first being the broken one) propagate that failure when a
  digest on the chain is absent from the store; \<open>get_commit_history\<close> propagates it when
  the walk reaches the absent digest before the limit stops it, and always when there is
  no limit. Nothing is stated for a string that is not a digest, such as the empty string
  that stands for "no commit": there the path that the source builds decides.
\<close>

theorem not_found_propagates:
  "digest_keys st \<longrightarrow>
     (digest h \<longrightarrow> (retrieve_object loads st h = Inl FileNotFoundError \<longleftrightarrow> st h = None)) \<and>
     (st h = Some s \<and> loads s = Some ob \<longrightarrow> retrieve_object loads st h = Inr ob) \<and>
     (digest h \<and> st h = None \<longrightarrow> get_commit loads st h = Inl FileNotFoundError) \<and>
     (reaches_missing loads st h n \<longrightarrow>
        get_commit_count loads st h = Some (Inl FileNotFoundError) \<and>
        find_common_ancestor loads st h b = Some (Inl FileNotFoundError) \<and>
        (is_chain loads st a cs \<longrightarrow>
           find_common_ancestor loads st a h = Some (Inl FileNotFoundError)) \<and>
        (within_limit max_count n \<longrightarrow>
           get_commit_history loads st h max_count = Some (Inl FileNotFoundError)))"
proof (intro conjI impI)
  show "retrieve_object loads st h = Inl FileNotFoundError \<longleftrightarrow> st h = None"
    by (auto simp: retrieve_object_def split: option.splits)
  show "retrieve_object loads st h = Inr ob" if "st h = Some s \<and> loads s = Some ob"
    using that by (simp add: retrieve_object_def)
  show "get_commit loads st h = Inl FileNotFoundError" if "digest h \<and> st h = None"
    using that by (simp add: get_commit_missing)
next
  assume r: "reaches_missing loads st h n"
  show "get_commit_count loads st h = Some (Inl FileNotFoundError)"
    by (simp add: get_commit_count_def count_loop_missing [OF r])
  show "find_common_ancestor loads st h b = Some (Inl FileNotFoundError)"
    by (simp add: find_common_ancestor_def ancestors_loop_missing [OF r])
  show "find_common_ancestor loads st a h = Some (Inl FileNotFoundError)"
    if c: "is_chain loads st a cs"
    using ancestors_loop_chain [OF c, of "{}"] search_loop_missing [OF c r]
    by (simp add: find_common_ancestor_def)
  show "get_commit_history loads st h max_count = Some (Inl FileNotFoundError)"
    if w: "within_limit max_count n"
  proof -
    from w have "case max_count of None \<Rightarrow> True | Some m \<Rightarrow> m = 0 \<or> 0 + int n < m"
      by (auto simp: within_limit_def split: option.splits)
    from history_loop_missing [OF r this] show ?thesis
      by (simp add: get_commit_history_def)
  qed
qed

theorem not_found_propagates_witness:
  "digest_keys broken_store \<and> digest digest_A \<and>
   reaches_missing broken_loads broken_store digest_B 1 \<and>
   is_chain broken_loads broken_store digest_X [stored None digest_X] \<and>
   within_limit (Some 2) 1 \<and>
   broken_store digest_A = None \<and>
   retrieve_object broken_loads broken_store digest_A = Inl FileNotFoundError \<and>
   get_commit broken_loads broken_store digest_A = Inl FileNotFoundError \<and>
   retrieve_object broken_loads broken_store digest_X = Inr (CommitObj (mk_commit None)) \<and>
   get_commit_count broken_loads broken_store digest_B = Some (Inl FileNotFoundError) \<and>
   find_common_ancestor broken_loads broken_store digest_B digest_X =
     Some (Inl FileNotFoundError) \<and>
   find_common_ancestor broken_loads broken_store digest_X digest_B =
     Some (Inl FileNotFoundError) \<and>
   get_commit_history broken_loads broken_store digest_B (Some 2) =
     Some (Inl FileNotFoundError)"
proof -
  note k = broken_store_keys
  have d: "digest digest_A"
    using example_digests by blast
  note a = broken_store_A
  have x: "broken_store digest_X = Some ''root''"
    by (simp add: broken_store_def)
  have l: "broken_loads ''root'' = Some (CommitObj (mk_commit None))"
    by (simp add: broken_loads_def)
  have w: "within_limit (Some 2) 1"
    by (simp add: within_limit_def)
  have t1: "get_commit_count broken_loads broken_store digest_B = Some (Inl FileNotFoundError) \<and>
    find_common_ancestor broken_loads broken_store digest_B digest_X =
      Some (Inl FileNotFoundError) \<and>
    find_common_ancestor broken_loads broken_store digest_X digest_B =
      Some (Inl FileNotFoundError) \<and>
    get_commit_history broken_loads broken_store digest_B (Some 2) =
      Some (Inl FileNotFoundError)"
    using k broken_chain_B broken_chain_X w
      not_found_propagates [where loads = broken_loads and st = broken_store
        and h = digest_B and n = 1 and b = digest_X and a = digest_X
        and cs = "[stored None digest_X]" and max_count = "Some 2"]
    by blast
  have t2: "retrieve_object broken_loads broken_store digest_A = Inl FileNotFoundError \<and>
    get_commit broken_loads broken_store digest_A = Inl FileNotFoundError"
    using k d a not_found_propagates [where loads = broken_loads and st = broken_store
        and h = digest_A]
    by blast
  have t3: "retrieve_object broken_loads broken_store digest_X =
              Inr (CommitObj (mk_commit None))"
    using k x l not_found_propagates [where loads = broken_loads and st = broken_store
        and h = digest_X and s = "''root''" and ob = "CommitObj (mk_commit None)"]
    by blast
  show ?thesis
    using k d broken_chain_B broken_chain_X a w t1 t2 t3 by blast
qed

section \<open>Theorems: tree model\<close>

lemma update_fresh: "k \<notin> fst ` set al \<Longrightarrow> AList.update k v al = al @ [(k, v)]"
  by (induction al) auto

lemma fold_add_children:
  "distinct (map fst kvs) \<Longrightarrow> fst ` set al \<inter> fst ` set kvs = {} \<Longrightarrow>
   fold (\<lambda>(k, v). AList.update k v) kvs al = al @ kvs"
proof (induction kvs arbitrary: al)
  case Nil
  show ?case by simp
next
  case (Cons kv kvs)
  obtain k v where kv: "kv = (k, v)" by (cases kv)
  from Cons.prems have fresh: "k \<notin> fst ` set al" and d: "distinct (map fst kvs)"
    and nk: "k \<notin> fst ` set kvs" and dj: "fst ` set al \<inter> fst ` set kvs = {}"
    by (auto simp: kv)
  have "fst ` set (al @ [(k, v)]) \<inter> fst ` set kvs = {}"
    using dj nk by auto
  from Cons.IH [OF d this] fresh show ?case
    by (simp add: kv update_fresh)
qed

lemma name_strip [simp]: "name (strip t) = name t"
  by (cases t) simp

lemma is_file_strip [simp]: "is_file (strip t) = is_file t"
  by (cases t) simp

lemma to_dict_strip: "to_dict (strip t) = to_dict t"
  by (induction t) (auto simp: prod.map_comp comp_def intro!: map_cong prod.map_cong)

lemma strip_leaves: "files_are_leaves t \<Longrightarrow> strip t = t"
  by (induction t) (auto intro!: map_idI simp: prod.map_ident_strong)


lemma fold_add_child:
  "fold add_child cs (TreeNode nm f h al) =
     TreeNode nm f h (fold (\<lambda>(k, v). AList.update k v) (map (\<lambda>c. (name c, c)) cs) al)"
  by (induction cs arbitrary: al) (simp_all add: add_child_def)

lemma from_dict_to_dict: "well_keyed t \<Longrightarrow> from_dict (to_dict t) = strip t"
proof (induction t)
  case (TreeNode nm f h cs)
  show ?case
  proof (cases f)
    case True
    then show ?thesis by simp
  next
    case False
    from TreeNode.prems False have h: "h = None" and d: "distinct (map fst cs)"
      and keys: "\<And>k c. (k, c) \<in> set cs \<Longrightarrow> k = name c \<and> well_keyed c"
      by auto
    have each: "\<And>k c. (k, c) \<in> set cs \<Longrightarrow> from_dict (to_dict c) = strip c"
      using TreeNode.IH keys by fastforce
    have kids: "map (\<lambda>c. (name c, c))
                 (map snd (map (map_prod id from_dict) (map (map_prod id to_dict) cs)))
          = map (map_prod id strip) cs"
      using each keys by (auto simp: comp_def)
    have "from_dict (to_dict (TreeNode nm f h cs)) =
            fold add_child (map snd (map (map_prod id from_dict) (map (map_prod id to_dict) cs)))
              (TreeNode nm False None [])"
      using False by simp
    also have "\<dots> = TreeNode nm False None
                 (fold (\<lambda>(k, v). AList.update k v) (map (map_prod id strip) cs) [])"
      unfolding fold_add_child kids ..
    also have "\<dots> = TreeNode nm False None (map (map_prod id strip) cs)"
      using fold_add_children [of "map (map_prod id strip) cs" "[]"] d
      by (simp add: comp_def)
    also have "\<dots> = strip (TreeNode nm f h cs)"
      using False h by simp
    finally show ?thesis .
  qed
qed

lemma to_dict_round_trip: "well_keyed t \<Longrightarrow> to_dict (from_dict (to_dict t)) = to_dict t"
  by (simp add: from_dict_to_dict to_dict_strip)

lemma name_add_child [simp]: "name (add_child c t) = name t"
  by (simp add: add_child_def)

lemma name_replace_child [simp]: "name (replace_child k c t) = name t"
  by (simp add: replace_child_def)

lemma is_file_add_child [simp]: "is_file (add_child c t) = is_file t"
  by (simp add: add_child_def)

lemma is_file_replace_child [simp]: "is_file (replace_child k c t) = is_file t"
  by (simp add: replace_child_def)

lemma name_add_parts [simp]: "name (add_parts ps h t) = name t"
  by (induction ps h t rule: add_parts.induct) (auto split: option.splits)

lemma is_file_add_parts [simp]: "is_file (add_parts ps h t) = is_file t"
  by (induction ps h t rule: add_parts.induct) (auto split: option.splits)

lemma content_hash_add_parts [simp]: "content_hash (add_parts ps h t) = content_hash t"
  by (induction ps h t rule: add_parts.induct)
     (auto split: option.splits simp: add_child_def replace_child_def)

lemma set_update_subset: "set (AList.update k v al) \<subseteq> insert (k, v) (set al)"
  by (induction al) auto

lemma well_keyed_update:
  assumes "well_keyed t" "well_keyed c" "name c = k"
  shows "well_keyed (TreeNode (name t) (is_file t) (content_hash t)
                       (AList.update k c (children t)))"
proof -
  obtain nm f h cs where t: "t = TreeNode nm f h cs" by (cases t)
  have "\<And>k' c'. (k', c') \<in> set (AList.update k c cs) \<Longrightarrow> k' = name c' \<and> well_keyed c'"
    using set_update_subset [of k c cs] assms by (auto simp: t)
  then show ?thesis
    using assms by (auto simp: t distinct_update)
qed

lemma well_keyed_add_parts: "well_keyed t \<Longrightarrow> well_keyed (add_parts ps h t)"
proof (induction ps h t rule: add_parts.induct)
  case (1 h current)
  then show ?case by simp
next
  case (2 part h current)
  have "well_keyed (TreeNode part True (Some h) [])" by simp
  from well_keyed_update [OF "2.prems" this] show ?case
    by (simp add: add_child_def)
next
  case (3 part v va h current)
  show ?case
  proof (cases "get_child current part")
    case None
    have "well_keyed (TreeNode part False None [])" by simp
    from "3.IH"(1) [OF None this]
    have "well_keyed (add_parts (v # va) h (TreeNode part False None []))" .
    from well_keyed_update [OF "3.prems" this] None show ?thesis
      by (simp add: add_child_def)
  next
    case (Some child)
    then have mem: "(part, child) \<in> set (children current)"
      by (auto simp: get_child_def dest: map_of_SomeD)
    then have wc: "well_keyed child" and nc: "name child = part"
      using "3.prems" by (cases current; auto)+
    from "3.IH"(2) [OF Some wc]
    have "well_keyed (add_parts (v # va) h child)" .
    from well_keyed_update [OF "3.prems" this] nc Some show ?thesis
      by (simp add: replace_child_def)
  qed
qed

lemma well_keyed_build: "well_keyed (build_tree staged)"
proof (induction staged rule: rev_induct)
  case Nil
  show ?case by (simp add: build_tree_def new_tree_def)
next
  case (snoc x xs)
  then show ?case
    by (cases x) (simp add: build_tree_def add_file_def well_keyed_add_parts)
qed


lemma get_child_add_child:
  "get_child (add_child c t) k = (if k = name c then Some c else get_child t k)"
  by (simp add: get_child_def add_child_def update_conv')

lemma get_child_replace_child:
  "get_child (replace_child k' c t) k = (if k = k' then Some c else get_child t k)"
  by (simp add: get_child_def replace_child_def update_conv')

lemma split_path_nonempty [simp]: "split_path p \<noteq> []"
  by (induction p) (auto split: list.splits)

lemma walk_add_parts_self:
  "ps \<noteq> [] \<Longrightarrow> walk (add_parts ps h t) ps = Some (TreeNode (last ps) True (Some h) [])"
  by (induction ps h t rule: add_parts.induct)
     (auto simp: get_child_add_child get_child_replace_child split: option.splits)

lemma get_file_hash_add_file: "get_file_hash (add_file t q h) q = Some h"
  by (simp add: get_file_hash_def add_file_def walk_add_parts_self)

lemma file_at_Nil [simp]: "file_at t [] = is_file t"
  by (simp add: file_at_def)

lemma file_at_Cons:
  "file_at t (c # cs) = (case get_child t c of None \<Rightarrow> False | Some ch \<Rightarrow> file_at ch cs)"
  by (simp add: file_at_def split: option.splits)

lemma file_at_leaf: "file_at (TreeNode nm f h []) cs \<longleftrightarrow> cs = [] \<and> f"
  by (cases cs) (auto simp: file_at_Cons get_child_def)

lemma file_at_add_parts:
  "file_at (add_parts ps h t) cs \<Longrightarrow> cs = ps \<or> file_at t cs"
proof (induction ps h t arbitrary: cs rule: add_parts.induct)
  case (1 h current)
  then show ?case by simp
next
  case (2 part h current)
  show ?case
  proof (cases cs)
    case Nil
    with "2.prems" show ?thesis by simp
  next
    case (Cons c cs')
    with "2.prems" show ?thesis
      by (auto simp: file_at_Cons get_child_add_child file_at_leaf split: if_splits)
  qed
next
  case (3 part v va h current)
  show ?case
  proof (cases cs)
    case Nil
    with "3.prems" show ?thesis by (simp split: option.splits)
  next
    case (Cons c cs')
    show ?thesis
    proof (cases "get_child current part")
      case None
      from "3.IH"(1) [OF None, of cs'] "3.prems" None Cons show ?thesis
        by (auto simp: file_at_Cons get_child_add_child file_at_leaf split: if_splits)
    next
      case (Some child)
      from "3.IH"(2) [OF Some, of cs'] "3.prems" Some Cons show ?thesis
        by (auto simp: file_at_Cons get_child_replace_child split: if_splits)
    qed
  qed
qed

lemma leaves_update:
  assumes "files_are_leaves t" "\<not> is_file t" "files_are_leaves c"
  shows "files_are_leaves (TreeNode (name t) (is_file t) (content_hash t)
                             (AList.update k c (children t)))"
proof -
  obtain nm f h cs where t: "t = TreeNode nm f h cs" by (cases t)
  have "\<And>k' c'. (k', c') \<in> set (AList.update k c cs) \<Longrightarrow> files_are_leaves c'"
    using set_update_subset [of k c cs] assms by (auto simp: t)
  then show ?thesis
    using assms by (auto simp: t)
qed

lemma leaves_child:
  "files_are_leaves t \<Longrightarrow> get_child t k = Some c \<Longrightarrow> files_are_leaves c"
  by (cases t) (auto simp: get_child_def dest: map_of_SomeD)

lemma leaves_add_parts:
  "files_are_leaves t \<Longrightarrow> (\<And>pre. strict_prefix pre ps \<Longrightarrow> \<not> file_at t pre) \<Longrightarrow>
   files_are_leaves (add_parts ps h t)"
proof (induction ps h t rule: add_parts.induct)
  case (1 h current)
  then show ?case by simp
next
  case (2 part h current)
  have nf: "\<not> is_file current"
    using "2.prems"(2) [of "[]"] by simp
  have "files_are_leaves (TreeNode part True (Some h) [])" by simp
  from leaves_update [OF "2.prems"(1) nf this] show ?case
    by (simp add: add_child_def)
next
  case (3 part v va h current)
  have nf: "\<not> is_file current"
    using "3.prems"(2) [of "[]"] by simp
  show ?case
  proof (cases "get_child current part")
    case None
    have l: "files_are_leaves (TreeNode part False None [])" by simp
    have "\<And>pre. strict_prefix pre (v # va) \<Longrightarrow> \<not> file_at (TreeNode part False None []) pre"
      by (simp add: file_at_leaf)
    from "3.IH"(1) [OF None l this]
    have "files_are_leaves (add_parts (v # va) h (TreeNode part False None []))" .
    from leaves_update [OF "3.prems"(1) nf this] None show ?thesis
      by (simp add: add_child_def)
  next
    case (Some child)
    have l: "files_are_leaves child"
      using "3.prems"(1) Some by (rule leaves_child)
    have "\<And>pre. strict_prefix pre (v # va) \<Longrightarrow> \<not> file_at child pre"
      using "3.prems"(2) [of "part # pre" for pre] Some
      by (simp add: file_at_Cons)
    from "3.IH"(2) [OF Some l this]
    have "files_are_leaves (add_parts (v # va) h child)" .
    from leaves_update [OF "3.prems"(1) nf this] Some show ?thesis
      by (simp add: replace_child_def)
  qed
qed

lemma build_tree_snoc:
  "build_tree (staged @ [(p, h)]) = add_file (build_tree staged) p h"
  by (simp add: build_tree_def)

lemma build_prefix_free:
  "(\<And>p q. p \<in> fst ` set staged \<Longrightarrow> q \<in> fst ` set staged \<Longrightarrow>
           \<not> strict_prefix (split_path p) (split_path q)) \<Longrightarrow>
   files_are_leaves (build_tree staged) \<and>
   (\<forall>cs. file_at (build_tree staged) cs \<longrightarrow> cs \<in> split_path ` fst ` set staged)"
proof (induction staged rule: rev_induct)
  case Nil
  show ?case
    by (simp add: build_tree_def new_tree_def file_at_leaf)
next
  case (snoc x xs)
  obtain p h where x: "x = (p, h)" by (cases x)
  have pf: "\<And>p q. p \<in> fst ` set xs \<Longrightarrow> q \<in> fst ` set xs \<Longrightarrow>
              \<not> strict_prefix (split_path p) (split_path q)"
    using snoc.prems by auto
  from snoc.IH [OF pf] have l: "files_are_leaves (build_tree xs)"
    and at: "\<And>cs. file_at (build_tree xs) cs \<Longrightarrow> cs \<in> split_path ` fst ` set xs"
    by blast+
  have np: "\<not> file_at (build_tree xs) pre" if sp: "strict_prefix pre (split_path p)" for pre
  proof
    assume "file_at (build_tree xs) pre"
    from at [OF this] obtain p' where p': "p' \<in> fst ` set xs" and pre: "pre = split_path p'"
      by auto
    have "\<not> strict_prefix (split_path p') (split_path p)"
      using snoc.prems [of p' p] p' by (simp add: x)
    with sp pre show False by simp
  qed
  have "files_are_leaves (add_parts (split_path p) h (build_tree xs))"
    using l np by (rule leaves_add_parts)
  moreover have "cs \<in> split_path ` fst ` set (xs @ [x])"
    if "file_at (add_parts (split_path p) h (build_tree xs)) cs" for cs
    using file_at_add_parts [OF that] at [of cs] by (auto simp: x)
  ultimately show ?case
    by (simp add: x build_tree_snoc add_file_def)
qed

lemma split_path_prefix:
  "prefix (split_path p) (split_path q) \<Longrightarrow> prefix p q"
proof (induction p arbitrary: q)
  case Nil
  show ?case by simp
next
  case (Cons c p)
  obtain a as where sp: "split_path p = a # as"
    by (cases "split_path p") simp_all
  show ?case
  proof (cases q)
    case Nil
    with Cons.prems sp show ?thesis
      by (auto split: if_splits)
  next
    case (Cons d q')
    obtain b bs where sq: "split_path q' = b # bs"
      by (cases "split_path q'") simp_all
    from Cons.prems Cons sp sq have "c = d \<and> prefix (split_path p) (split_path q')"
      by (auto split: if_splits)
    with Cons.IH [of q'] Cons show ?thesis by simp
  qed
qed


lemma dfs_strip: "dfs (strip t) path = dfs t path"
proof (induction t arbitrary: path)
  case (TreeNode nm f h cs)
  have "\<And>k c path. (k, c) \<in> set cs \<Longrightarrow> dfs (strip c) path = dfs c path"
    using TreeNode.IH by fastforce
  then show ?case
    by (auto simp: comp_def intro!: arg_cong [where f = concat] map_cong)
qed

lemma strip_file: "is_file t \<Longrightarrow> strip t = TreeNode (name t) True (content_hash t) []"
  by (cases t) simp

lemma map_update:
  "map (map_prod id f) (AList.update k v al) = AList.update k (f v) (map (map_prod id f) al)"
  by (induction al) auto

lemma update_same: "map_of al k = Some v \<Longrightarrow> AList.update k v al = al"
  by (induction al) (auto split: if_splits)

lemma map_of_map_prod_id:
  "map_of (map (map_prod id f) al) k = map_option f (map_of al k)"
  by (induction al) auto

lemma strip_replace_child:
  assumes "get_child t k = Some c" "strip c' = strip c"
  shows "strip (replace_child k c' t) = strip t"
proof -
  obtain nm f h cs where t: "t = TreeNode nm f h cs" by (cases t)
  from assms(1) have "map_of (map (map_prod id strip) cs) k = Some (strip c)"
    by (simp add: t get_child_def map_of_map_prod_id)
  then have "AList.update k (strip c) (map (map_prod id strip) cs) = map (map_prod id strip) cs"
    by (rule update_same)
  then show ?thesis
    using assms(2) by (simp add: t replace_child_def map_update)
qed

lemma strip_add_parts_beyond_file:
  "walk t pre = Some n \<Longrightarrow> is_file n \<Longrightarrow> rest \<noteq> [] \<Longrightarrow>
   strip (add_parts (pre @ rest) h t) = strip t"
proof (induction pre arbitrary: t)
  case Nil
  then show ?case by (simp add: strip_file)
next
  case (Cons x xs)
  from Cons.prems(1) obtain child where c: "get_child t x = Some child"
    and w: "walk child xs = Some n"
    by (auto split: option.splits)
  obtain y ys where r: "xs @ rest = y # ys"
    using Cons.prems(3) by (cases "xs @ rest") auto
  have "strip (add_parts (xs @ rest) h child) = strip child"
    using w Cons.prems(2,3) by (rule Cons.IH)
  moreover have "add_parts ((x # xs) @ rest) h t =
                   replace_child x (add_parts (xs @ rest) h child) t"
    using c by (simp add: r)
  ultimately show ?case
    using strip_replace_child [OF c] by simp
qed

lemma walk_strip_beyond_file:
  "walk t pre = Some n \<Longrightarrow> is_file n \<Longrightarrow> rest \<noteq> [] \<Longrightarrow> walk (strip t) (pre @ rest) = None"
proof (induction pre arbitrary: t)
  case Nil
  then show ?case
    by (cases rest) (auto simp: strip_file get_child_def)
next
  case (Cons x xs)
  obtain nm f h cs where t: "t = TreeNode nm f h cs" by (cases t)
  from Cons.prems(1) obtain child where c: "map_of cs x = Some child"
    and w: "walk child xs = Some n"
    by (auto simp: t get_child_def split: option.splits)
  have "walk (strip child) (xs @ rest) = None"
    using w Cons.prems(2,3) by (rule Cons.IH)
  then show ?case
    using c by (simp add: t get_child_def map_of_map_prod_id)
qed

lemma walk_add_parts_through:
  "walk t pre = Some n \<Longrightarrow> rest \<noteq> [] \<Longrightarrow>
   walk (add_parts (pre @ rest) h t) pre = Some (add_parts rest h n)"
proof (induction pre arbitrary: t)
  case Nil
  then show ?case by simp
next
  case (Cons x xs)
  from Cons.prems(1) obtain child where c: "get_child t x = Some child"
    and w: "walk child xs = Some n"
    by (auto split: option.splits)
  obtain y ys where r: "xs @ rest = y # ys"
    using Cons.prems(2) by (cases "xs @ rest") auto
  have "walk (add_parts (xs @ rest) h child) xs = Some (add_parts rest h n)"
    using w Cons.prems(2) by (rule Cons.IH)
  then show ?case
    using c by (simp add: r get_child_replace_child)
qed

lemma round_trip_leaves:
  "well_keyed t \<Longrightarrow> files_are_leaves t \<Longrightarrow> from_dict (to_dict t) = t"
  by (simp add: from_dict_to_dict strip_leaves)

text \<open>
  C5. For a tree built from (path, hash) pairs among whose paths none is, component by
  component, a proper prefix of another, deserializing the serialized tree gives the tree
  back: the same \<open>list_all_files\<close>, the same \<open>get_file_hash\<close> for every path, and
  serializing again gives the first serialization. (A path that is a proper prefix of
  another as a list of components is one as a string, \<open>split_path_prefix\<close>.)
\<close>

theorem tree_round_trip:
  "(\<forall>p \<in> fst ` set staged. \<forall>q \<in> fst ` set staged.
       \<not> strict_prefix (split_path p) (split_path q)) \<longrightarrow>
   from_dict (to_dict (build_tree staged)) = build_tree staged \<and>
   set (list_all_files (from_dict (to_dict (build_tree staged)))) =
     set (list_all_files (build_tree staged)) \<and>
   (\<forall>path. get_file_hash (from_dict (to_dict (build_tree staged))) path =
            get_file_hash (build_tree staged) path) \<and>
   to_dict (from_dict (to_dict (build_tree staged))) = to_dict (build_tree staged)"
proof
  assume pf: "\<forall>p \<in> fst ` set staged. \<forall>q \<in> fst ` set staged.
       \<not> strict_prefix (split_path p) (split_path q)"
  have "files_are_leaves (build_tree staged)"
    using build_prefix_free [of staged] pf by blast
  then have "from_dict (to_dict (build_tree staged)) = build_tree staged"
    using well_keyed_build by (intro round_trip_leaves)
  then show "from_dict (to_dict (build_tree staged)) = build_tree staged \<and>
   set (list_all_files (from_dict (to_dict (build_tree staged)))) =
     set (list_all_files (build_tree staged)) \<and>
   (\<forall>path. get_file_hash (from_dict (to_dict (build_tree staged))) path =
            get_file_hash (build_tree staged) path) \<and>
   to_dict (from_dict (to_dict (build_tree staged))) = to_dict (build_tree staged)"
    by simp
qed

lemma example_tree:
  "build_tree [(''src/a.py'', ''h1''), (''README'', ''h2''), (''src/b.py'', ''h3'')] =
     TreeNode ''.'' False None
       [(''src'', TreeNode ''src'' False None
                   [(''a.py'', TreeNode ''a.py'' True (Some ''h1'') []),
                    (''b.py'', TreeNode ''b.py'' True (Some ''h3'') [])]),
        (''README'', TreeNode ''README'' True (Some ''h2'') [])]"
  by (simp add: add_file_def build_tree_def new_tree_def add_child_def
        replace_child_def get_child_def)

theorem tree_round_trip_witness:
  "list_all_files (from_dict (to_dict
      (build_tree [(''src/a.py'', ''h1''), (''README'', ''h2''), (''src/b.py'', ''h3'')]))) =
     [''src/a.py'', ''src/b.py'', ''README''] \<and>
   list_all_files (build_tree [(''src/a.py'', ''h1''), (''README'', ''h2''), (''src/b.py'', ''h3'')]) =
     [''src/a.py'', ''src/b.py'', ''README''] \<and>
   get_file_hash (from_dict (to_dict
      (build_tree [(''src/a.py'', ''h1''), (''README'', ''h2''), (''src/b.py'', ''h3'')])))
      ''src/b.py'' = Some ''h3''"
proof -
  let ?staged = "[(''src/a.py'', ''h1''), (''README'', ''h2''), (''src/b.py'', ''h3'')]"
  have pf: "\<forall>p \<in> fst ` set ?staged. \<forall>q \<in> fst ` set ?staged.
       \<not> strict_prefix (split_path p) (split_path q)"
    by (simp add: strict_prefix_def)
  have rt: "from_dict (to_dict (build_tree ?staged)) = build_tree ?staged"
    using tree_round_trip [of ?staged] pf by blast
  have l: "list_all_files (build_tree ?staged) = [''src/a.py'', ''src/b.py'', ''README'']"
    by (simp add: example_tree list_all_files_def)
  have g: "get_file_hash (build_tree ?staged) ''src/b.py'' = Some ''h3''"
    by (simp add: example_tree get_file_hash_def get_child_def)
  show ?thesis
    unfolding rt using l g by simp
qed

text \<open>
  C10, as stated, fails on the listing: \<open>dfs\<close> gives the children of a directory whose
  own path is the empty string their bare names, so the file staged as \<open>/a/b\<close> is listed
  as \<open>a/b\<close>. With the files \<open>a\<close> and \<open>/a/b\<close> in the tree, adding \<open>a/b\<close> beneath the file
  \<open>a\<close> leaves a listing that does contain \<open>a/b\<close>.
\<close>

theorem listing_shows_added_path:
  "get_file_hash (build_tree [(''a'', ''h0''), (''/a/b'', ''h1'')]) ''a'' = Some ''h0'' \<and>
   strict_prefix (split_path ''a'') (split_path ''a/b'') \<and>
   list_all_files (add_file (build_tree [(''a'', ''h0''), (''/a/b'', ''h1'')]) ''a/b'' ''h2'') =
     [''a'', ''a/b'']"
  by (simp add: list_all_files_def get_file_hash_def add_file_def build_tree_def new_tree_def
        add_child_def replace_child_def get_child_def strict_prefix_def)

text \<open>
  C10, amended. If \<open>add_file\<close> is called on a built tree with a path that strictly
  extends the path of an existing file leaf, the new leaf is attached beneath the file
  node: \<open>get_file_hash\<close> on the new path returns its hash in the tree in memory, but
  \<open>list_all_files\<close> returns the same list as before the call (no entry for the new leaf)
  and \<open>to_dict\<close> returns the same dictionary as before, so the new file is not found
  after a serialize/deserialize round trip.
\<close>

theorem add_file_beneath_file:
  "get_file_hash (build_tree staged) p \<noteq> None \<and>
   strict_prefix (split_path p) (split_path q) \<longrightarrow>
     file_at (add_file (build_tree staged) q h) (split_path p) \<and>
     get_file_hash (add_file (build_tree staged) q h) q = Some h \<and>
     list_all_files (add_file (build_tree staged) q h) = list_all_files (build_tree staged) \<and>
     to_dict (add_file (build_tree staged) q h) = to_dict (build_tree staged) \<and>
     get_file_hash (from_dict (to_dict (add_file (build_tree staged) q h))) q = None"
proof (intro impI)
  let ?t = "build_tree staged"
  assume a: "get_file_hash ?t p \<noteq> None \<and> strict_prefix (split_path p) (split_path q)"
  then obtain n where w: "walk ?t (split_path p) = Some n" and f: "is_file n"
    by (auto simp: get_file_hash_def split: option.splits if_splits)
  from a obtain rest where q: "split_path q = split_path p @ rest" and r: "rest \<noteq> []"
    by (auto simp: strict_prefix_def prefix_def)
  have s: "strip (add_file ?t q h) = strip ?t"
    unfolding add_file_def q using w f r by (rule strip_add_parts_beyond_file)
  have wk: "well_keyed (add_file ?t q h)"
    unfolding add_file_def using well_keyed_build by (rule well_keyed_add_parts)
  have 1: "file_at (add_file ?t q h) (split_path p)"
    unfolding add_file_def q file_at_def
    using walk_add_parts_through [OF w r, of h] f by simp
  have 2: "get_file_hash (add_file ?t q h) q = Some h"
    by (rule get_file_hash_add_file)
  have 3: "list_all_files (add_file ?t q h) = list_all_files ?t"
    using dfs_strip [of "add_file ?t q h" "[]"] dfs_strip [of ?t "[]"] s
    by (simp add: list_all_files_def)
  have 4: "to_dict (add_file ?t q h) = to_dict ?t"
    using to_dict_strip [of "add_file ?t q h"] to_dict_strip [of ?t] s by simp
  have "walk (strip ?t) (split_path q) = None"
    unfolding q using w f r by (rule walk_strip_beyond_file)
  then have 5: "get_file_hash (from_dict (to_dict (add_file ?t q h))) q = None"
    by (simp add: from_dict_to_dict [OF wk] s get_file_hash_def)
  from 1 2 3 4 5 show "file_at (add_file ?t q h) (split_path p) \<and>
     get_file_hash (add_file ?t q h) q = Some h \<and>
     list_all_files (add_file ?t q h) = list_all_files ?t \<and>
     to_dict (add_file ?t q h) = to_dict ?t \<and>
     get_file_hash (from_dict (to_dict (add_file ?t q h))) q = None"
    by blast
qed

theorem add_file_beneath_file_witness:
  "get_file_hash (build_tree [(''a'', ''h0'')]) ''a'' = Some ''h0'' \<and>
   strict_prefix (split_path ''a'') (split_path ''a/b'') \<and>
   get_file_hash (add_file (build_tree [(''a'', ''h0'')]) ''a/b'' ''h2'') ''a/b'' = Some ''h2'' \<and>
   list_all_files (add_file (build_tree [(''a'', ''h0'')]) ''a/b'' ''h2'') = [''a''] \<and>
   get_file_hash (from_dict (to_dict (add_file (build_tree [(''a'', ''h0'')]) ''a/b'' ''h2'')))
     ''a/b'' = None"
proof -
  have g: "get_file_hash (build_tree [(''a'', ''h0'')]) ''a'' = Some ''h0''"
    by (simp add: get_file_hash_def add_file_def build_tree_def new_tree_def add_child_def
          get_child_def)
  have sp: "strict_prefix (split_path ''a'') (split_path ''a/b'')"
    by (simp add: strict_prefix_def)
  have l: "list_all_files (build_tree [(''a'', ''h0'')]) = [''a'']"
    by (simp add: list_all_files_def add_file_def build_tree_def new_tree_def add_child_def)
  have ne: "get_file_hash (build_tree [(''a'', ''h0'')]) ''a'' \<noteq> None"
    using g by simp
  note t = add_file_beneath_file [of "[(''a'', ''h0'')]" "''a''" "''a/b''" "''h2''"]
  have 2: "get_file_hash (add_file (build_tree [(''a'', ''h0'')]) ''a/b'' ''h2'') ''a/b'' = Some ''h2''"
    using t ne sp by blast
  have "list_all_files (add_file (build_tree [(''a'', ''h0'')]) ''a/b'' ''h2'') =
          list_all_files (build_tree [(''a'', ''h0'')])"
    using t ne sp by blast
  then have 3: "list_all_files (add_file (build_tree [(''a'', ''h0'')]) ''a/b'' ''h2'') = [''a'']"
    using l by simp
  have 5: "get_file_hash (from_dict (to_dict (add_file (build_tree [(''a'', ''h0'')]) ''a/b'' ''h2'')))
     ''a/b'' = None"
    using t ne sp by blast
  show ?thesis
    using g sp 2 3 5 by blast
qed

section \<open>Theorems: diff engine\<close>

lemma lcs_len_0_right [simp]: "lcs_len xs ys i 0 = 0"
  by (cases i) simp_all

lemma filled_len: "filled xs ys dp i j \<Longrightarrow> length dp = length xs + 1"
  unfolding filled_def by blast

lemma filled_row_len:
  "filled xs ys dp i j \<Longrightarrow> a \<le> length xs \<Longrightarrow> length (dp ! a) = length ys + 1"
  unfolding filled_def by blast

lemma filled_val:
  "filled xs ys dp i j \<Longrightarrow> a \<le> length xs \<Longrightarrow> b \<le> length ys \<Longrightarrow>
   a < i \<or> (a = i \<and> b \<le> j) \<or> b = 0 \<Longrightarrow> dp ! a ! b = lcs_len xs ys a b"
  unfolding filled_def by blast

lemma filledI:
  "length dp = length xs + 1 \<Longrightarrow>
   (\<And>a. a \<le> length xs \<Longrightarrow> length (dp ! a) = length ys + 1) \<Longrightarrow>
   (\<And>a b. a \<le> length xs \<Longrightarrow> b \<le> length ys \<Longrightarrow> a < i \<or> (a = i \<and> b \<le> j) \<or> b = 0 \<Longrightarrow>
      dp ! a ! b = lcs_len xs ys a b) \<Longrightarrow>
   filled xs ys dp i j"
  unfolding filled_def by blast

lemma filled_init:
  "filled xs ys (replicate (length xs + 1) (replicate (length ys + 1) 0)) 0 (length ys)"
proof (rule filledI)
  show "length (replicate (length xs + 1) (replicate (length ys + 1) (0::nat))) = length xs + 1"
    by simp
next
  fix a assume "a \<le> length xs"
  then show "length (replicate (length xs + 1) (replicate (length ys + 1) (0::nat)) ! a) =
               length ys + 1"
    by (simp del: replicate_Suc)
next
  fix a b assume "a \<le> length xs" "b \<le> length ys" "a < 0 \<or> (a = 0 \<and> b \<le> length ys) \<or> b = 0"
  then show "replicate (length xs + 1) (replicate (length ys + 1) 0) ! a ! b = lcs_len xs ys a b"
    by (auto simp del: replicate_Suc)
qed

lemma filled_cell:
  assumes f: "filled xs ys dp (Suc i) j" and i: "Suc i \<le> length xs" and j: "j < length ys"
  shows "filled xs ys (lcs_cell xs ys (Suc i) (Suc j) dp) (Suc i) (Suc j)"
proof -
  let ?v = "if xs ! i = ys ! j then dp ! i ! j + 1 else max (dp ! i ! Suc j) (dp ! Suc i ! j)"
  have c: "lcs_cell xs ys (Suc i) (Suc j) dp = dp[Suc i := (dp ! Suc i)[Suc j := ?v]]"
    by (simp add: lcs_cell_def)
  have len: "length dp = length xs + 1"
    using f by (rule filled_len)
  have rows: "\<And>a. a \<le> length xs \<Longrightarrow> length (dp ! a) = length ys + 1"
    using f by (rule filled_row_len)
  have vals: "\<And>a b. a \<le> length xs \<Longrightarrow> b \<le> length ys \<Longrightarrow>
                 a < Suc i \<or> (a = Suc i \<and> b \<le> j) \<or> b = 0 \<Longrightarrow> dp ! a ! b = lcs_len xs ys a b"
    using f by (rule filled_val)
  have v: "?v = lcs_len xs ys (Suc i) (Suc j)"
    using vals [of i j] vals [of i "Suc j"] vals [of "Suc i" j] i j by simp
  show ?thesis
    unfolding c
  proof (rule filledI)
    show "length (dp[Suc i := (dp ! Suc i)[Suc j := ?v]]) = length xs + 1"
      using len by simp
  next
    fix a assume "a \<le> length xs"
    then show "length (dp[Suc i := (dp ! Suc i)[Suc j := ?v]] ! a) = length ys + 1"
      using rows [of a] len by (cases "a = Suc i") simp_all
  next
    fix a b
    assume a: "a \<le> length xs" and b: "b \<le> length ys"
      and w: "a < Suc i \<or> (a = Suc i \<and> b \<le> Suc j) \<or> b = 0"
    show "dp[Suc i := (dp ! Suc i)[Suc j := ?v]] ! a ! b = lcs_len xs ys a b"
    proof (cases "a = Suc i \<and> b = Suc j")
      case True
      then show ?thesis
        using v len rows [of "Suc i"] i j by simp
    next
      case False
      then have "dp[Suc i := (dp ! Suc i)[Suc j := ?v]] ! a ! b = dp ! a ! b"
        using len a by (cases "a = Suc i") auto
      moreover have "a < Suc i \<or> (a = Suc i \<and> b \<le> j) \<or> b = 0"
        using w False by auto
      ultimately show ?thesis
        using vals [OF a b] by simp
    qed
  qed
qed

lemma filled_row:
  "filled xs ys dp (Suc i) 0 \<Longrightarrow> Suc i \<le> length xs \<Longrightarrow> k \<le> length ys \<Longrightarrow>
   filled xs ys (fold (\<lambda>j dp. lcs_cell xs ys (Suc i) j dp) [1..<k + 1] dp) (Suc i) k"
proof (induction k)
  case 0
  then show ?case by simp
next
  case (Suc k)
  then have "filled xs ys (fold (\<lambda>j dp. lcs_cell xs ys (Suc i) j dp) [1..<k + 1] dp) (Suc i) k"
    by simp
  from filled_cell [OF this] Suc.prems show ?case
    by simp
qed

lemma filled_next_row:
  assumes f: "filled xs ys dp i (length ys)"
  shows "filled xs ys dp (Suc i) 0"
proof (rule filledI)
  show "length dp = length xs + 1" using f by (rule filled_len)
next
  fix a assume "a \<le> length xs"
  with f show "length (dp ! a) = length ys + 1" by (rule filled_row_len)
next
  fix a b assume a: "a \<le> length xs" and b: "b \<le> length ys"
    and w: "a < Suc i \<or> (a = Suc i \<and> b \<le> 0) \<or> b = 0"
  from w b have "a < i \<or> (a = i \<and> b \<le> length ys) \<or> b = 0" by auto
  with f a b show "dp ! a ! b = lcs_len xs ys a b" by (rule filled_val)
qed

lemma filled_rows:
  "filled xs ys dp 0 (length ys) \<Longrightarrow> k \<le> length xs \<Longrightarrow>
   filled xs ys
     (fold (\<lambda>i dp. fold (\<lambda>j dp. lcs_cell xs ys i j dp) [1..<length ys + 1] dp) [1..<k + 1] dp)
     k (length ys)"
proof (induction k)
  case 0
  then show ?case by simp
next
  case (Suc k)
  then have "filled xs ys
     (fold (\<lambda>i dp. fold (\<lambda>j dp. lcs_cell xs ys i j dp) [1..<length ys + 1] dp) [1..<k + 1] dp)
     k (length ys)"
    by simp
  then have "filled xs ys
     (fold (\<lambda>i dp. fold (\<lambda>j dp. lcs_cell xs ys i j dp) [1..<length ys + 1] dp) [1..<k + 1] dp)
     (Suc k) 0"
    by (rule filled_next_row)
  from filled_row [OF this, of "length ys"] Suc.prems show ?case
    by simp
qed

lemma compute_lcs_length_filled:
  "filled xs ys (compute_lcs_length xs ys) (length xs) (length ys)"
  using filled_rows [OF filled_init, of "length xs" xs ys]
  by (simp add: compute_lcs_length_def Let_def)

lemma cell_compute_lcs_length:
  assumes i: "i \<le> length xs" and j: "j \<le> length ys"
  shows "cell (compute_lcs_length xs ys) i j = Inr (lcs_len xs ys i j)"
proof -
  note f = compute_lcs_length_filled [of xs ys]
  have w: "i < length xs \<or> (i = length xs \<and> j \<le> length ys) \<or> j = 0"
    using i j by auto
  have v: "compute_lcs_length xs ys ! i ! j = lcs_len xs ys i j"
    using f i j w by (rule filled_val)
  have l1: "i < length (compute_lcs_length xs ys)"
    using filled_len [OF f] i by simp
  have l2: "j < length (compute_lcs_length xs ys ! i)"
    using filled_row_len [OF f i] j by simp
  show ?thesis
    using v l1 l2 by (simp add: cell_def)
qed


lemma backtrack_loop_spec:
  "i \<le> length xs \<Longrightarrow> j \<le> length ys \<Longrightarrow>
   backtrack_loop xs ys (compute_lcs_length xs ys) i j diff =
     Inr (diff @ spec_backtrack xs ys i j)"
proof (induction xs ys i j arbitrary: diff rule: spec_backtrack.induct)
  case (1 xs ys)
  show ?case
    by (subst backtrack_loop.simps) simp
next
  case (2 xs ys j)
  then show ?case
    by (subst backtrack_loop.simps) simp
next
  case (3 xs ys i)
  then show ?case
    by (subst backtrack_loop.simps) simp
next
  case (4 xs ys i j)
  have l: "cell (compute_lcs_length xs ys) (Suc i) j = Inr (lcs_len xs ys (Suc i) j)"
    using "4.prems" by (intro cell_compute_lcs_length) simp_all
  have u: "cell (compute_lcs_length xs ys) i (Suc j) = Inr (lcs_len xs ys i (Suc j))"
    using "4.prems" by (intro cell_compute_lcs_length) simp_all
  show ?case
  proof (cases "xs ! i = ys ! j")
    case True
    with "4.IH"(1) [OF True, of "diff @ [\<lparr>line_type = '' '', content = xs ! i, line_num = Suc i\<rparr>]"]
      "4.prems"
    show ?thesis
      by (subst backtrack_loop.simps) simp
  next
    case False
    show ?thesis
    proof (cases "lcs_len xs ys i (Suc j) \<le> lcs_len xs ys (Suc i) j")
      case True
      with "4.IH"(2) [OF False True, of "diff @ [\<lparr>line_type = ''+'', content = ys ! j, line_num = 0\<rparr>]"]
        "4.prems" False l u
      show ?thesis
        by (subst backtrack_loop.simps) simp
    next
      case ge: False
      with "4.IH"(3) [OF False ge, of "diff @ [\<lparr>line_type = ''-'', content = xs ! i, line_num = Suc i\<rparr>]"]
        "4.prems" False l u
      show ?thesis
        by (subst backtrack_loop.simps) simp
    qed
  qed
qed

lemma backtrack_diff_spec:
  "backtrack_diff xs ys (compute_lcs_length xs ys) =
     Inr (rev (spec_backtrack xs ys (length xs) (length ys)))"
  by (simp add: backtrack_diff_def backtrack_loop_spec)

lemma compute_diff_spec: "compute_diff text1 text2 = Inr (spec_diff text1 text2)"
  by (simp add: compute_diff_def Let_def lines_of_def spec_diff_def backtrack_diff_spec)

lemma old_lines_spec:
  "i \<le> length xs \<Longrightarrow> old_lines (rev (spec_backtrack xs ys i j)) = take i xs"
  by (induction xs ys i j rule: spec_backtrack.induct)
     (auto simp: old_lines_def take_Suc_conv_app_nth)

lemma new_lines_spec:
  "j \<le> length ys \<Longrightarrow> new_lines (rev (spec_backtrack xs ys i j)) = take j ys"
  by (induction xs ys i j rule: spec_backtrack.induct)
     (auto simp: new_lines_def take_Suc_conv_app_nth)

lemma unchanged_spec:
  "length (unchanged (rev (spec_backtrack xs ys i j))) = lcs_len xs ys i j"
  by (induction xs ys i j rule: spec_backtrack.induct)
     (auto simp: unchanged_def)

lemma line_types_spec:
  "d \<in> set (spec_backtrack xs ys i j) \<Longrightarrow> line_type d \<in> {'' '', ''+'', ''-''}"
  by (induction xs ys i j rule: spec_backtrack.induct) (auto split: if_splits)

lemma subseq_snoc:
  "subseq zs (as @ [a]) \<longleftrightarrow> subseq zs as \<or> (\<exists>zs'. zs = zs' @ [a] \<and> subseq zs' as)"
proof
  assume "subseq zs (as @ [a])"
  then obtain z1 z2 where z: "zs = z1 @ z2" and s1: "subseq z1 as" and s2: "subseq z2 [a]"
    by (auto simp: subseq_append_iff)
  from s2 have "z2 = [] \<or> z2 = [a]"
    by (cases z2) (auto split: if_splits)
  with z s1 show "subseq zs as \<or> (\<exists>zs'. zs = zs' @ [a] \<and> subseq zs' as)"
    by auto
next
  assume "subseq zs as \<or> (\<exists>zs'. zs = zs' @ [a] \<and> subseq zs' as)"
  then show "subseq zs (as @ [a])"
    by (auto intro: subseq_rev_drop_many)
qed

lemma subseq_butlast: "subseq (zs @ [a]) as \<Longrightarrow> subseq zs as"
  by (metis subseq_order.trans prefix_imp_subseq prefixI)

lemma lcs_len_upper:
  "i \<le> length xs \<Longrightarrow> j \<le> length ys \<Longrightarrow>
   subseq zs (take i xs) \<Longrightarrow> subseq zs (take j ys) \<Longrightarrow> length zs \<le> lcs_len xs ys i j"
proof (induction xs ys i j arbitrary: zs rule: lcs_len.induct)
  case (1 xs ys j)
  then show ?case by simp
next
  case (2 xs ys i)
  then show ?case by simp
next
  case (3 xs ys i j)
  have i: "i \<le> length xs" "i < length xs" and j: "j \<le> length ys" "j < length ys"
    using "3.prems" by simp_all
  have tx: "take (Suc i) xs = take i xs @ [xs ! i]"
    using i by (simp add: take_Suc_conv_app_nth)
  have ty: "take (Suc j) ys = take j ys @ [ys ! j]"
    using j by (simp add: take_Suc_conv_app_nth)
  from "3.prems"(3) have cx: "subseq zs (take i xs) \<or>
      (\<exists>zs'. zs = zs' @ [xs ! i] \<and> subseq zs' (take i xs))"
    by (simp add: tx subseq_snoc)
  from "3.prems"(4) have cy: "subseq zs (take j ys) \<or>
      (\<exists>zs'. zs = zs' @ [ys ! j] \<and> subseq zs' (take j ys))"
    by (simp add: ty subseq_snoc)
  show ?case
  proof (cases "xs ! i = ys ! j")
    case True
    have ih: "\<And>zs. subseq zs (take i xs) \<Longrightarrow> subseq zs (take j ys) \<Longrightarrow>
                length zs \<le> lcs_len xs ys i j"
      using "3.IH"(1) [OF True i(1) j(1)] .
    have "length zs \<le> lcs_len xs ys i j + 1"
    proof (cases "subseq zs (take i xs) \<and> subseq zs (take j ys)")
      case True
      then show ?thesis using ih [of zs] by simp
    next
      case False
      with cx cy obtain zs' where z: "zs = zs' @ [xs ! i] \<or> zs = zs' @ [ys ! j]"
        by blast
      then have zl: "length zs = length zs' + 1" by auto
      have "subseq zs' (take i xs)"
        using cx z True by (auto dest: subseq_butlast)
      moreover have "subseq zs' (take j ys)"
        using cy z True by (auto dest: subseq_butlast)
      ultimately show ?thesis
        using ih [of zs'] zl by simp
    qed
    then show ?thesis using True by simp
  next
    case False
    have ih1: "subseq zs (take i xs) \<Longrightarrow> length zs \<le> lcs_len xs ys i (Suc j)"
      using "3.IH"(2) [OF False i(1) "3.prems"(2) _ "3.prems"(4)] .
    have ih2: "subseq zs (take j ys) \<Longrightarrow> length zs \<le> lcs_len xs ys (Suc i) j"
      using "3.IH"(3) [OF False "3.prems"(1) j(1) "3.prems"(3)] .
    have "subseq zs (take i xs) \<or> subseq zs (take j ys)"
      using cx cy False by auto
    then have "length zs \<le> max (lcs_len xs ys i (Suc j)) (lcs_len xs ys (Suc i) j)"
      using ih1 ih2 by auto
    then show ?thesis using False by simp
  qed
qed


lemma removed_count_spec:
  "length (removed (rev (spec_backtrack xs ys i j))) + lcs_len xs ys i j = i"
  by (induction xs ys i j rule: spec_backtrack.induct) (auto simp: removed_def)

lemma added_count_spec:
  "length (added (rev (spec_backtrack xs ys i j))) + lcs_len xs ys i j = j"
  by (induction xs ys i j rule: spec_backtrack.induct) (auto simp: added_def)

lemma subseq_map_filter:
  "(\<And>x. P x \<Longrightarrow> Q x) \<Longrightarrow> subseq (map f (filter P xs)) (map f (filter Q xs))"
  by (induction xs) auto

lemma unchanged_subseq_old: "subseq (unchanged ds) (old_lines ds)"
  unfolding unchanged_def old_lines_def by (rule subseq_map_filter) simp

lemma unchanged_subseq_new: "subseq (unchanged ds) (new_lines ds)"
  unfolding unchanged_def new_lines_def by (rule subseq_map_filter) simp

lemma spec_diff_old: "old_lines (spec_diff a b) = lines_of a"
  by (simp add: spec_diff_def old_lines_spec)

lemma spec_diff_new: "new_lines (spec_diff a b) = lines_of b"
  by (simp add: spec_diff_def new_lines_spec)

lemma spec_diff_unchanged:
  "length (unchanged (spec_diff a b)) =
     lcs_len (lines_of a) (lines_of b) (length (lines_of a)) (length (lines_of b))"
  by (simp add: spec_diff_def unchanged_spec)

lemma spec_diff_longest:
  assumes "subseq zs (lines_of a)" "subseq zs (lines_of b)"
  shows "length zs \<le> length (unchanged (spec_diff a b))"
  using lcs_len_upper [of "length (lines_of a)" "lines_of a" "length (lines_of b)" "lines_of b" zs]
    assms
  by (simp add: spec_diff_unchanged)

lemma spec_diff_unchanged_sym:
  "length (unchanged (spec_diff b a)) = length (unchanged (spec_diff a b))"
proof (rule antisym)
  have "subseq (unchanged (spec_diff b a)) (lines_of b)"
    using unchanged_subseq_old [of "spec_diff b a"] by (simp add: spec_diff_old)
  moreover have "subseq (unchanged (spec_diff b a)) (lines_of a)"
    using unchanged_subseq_new [of "spec_diff b a"] by (simp add: spec_diff_new)
  ultimately show "length (unchanged (spec_diff b a)) \<le> length (unchanged (spec_diff a b))"
    by (intro spec_diff_longest)
next
  have "subseq (unchanged (spec_diff a b)) (lines_of a)"
    using unchanged_subseq_old [of "spec_diff a b"] by (simp add: spec_diff_old)
  moreover have "subseq (unchanged (spec_diff a b)) (lines_of b)"
    using unchanged_subseq_new [of "spec_diff a b"] by (simp add: spec_diff_new)
  ultimately show "length (unchanged (spec_diff a b)) \<le> length (unchanged (spec_diff b a))"
    by (intro spec_diff_longest)
qed

lemma spec_diff_removed:
  "length (removed (spec_diff a b)) + length (unchanged (spec_diff a b)) = length (lines_of a)"
  using removed_count_spec [of "lines_of a" "lines_of b" "length (lines_of a)" "length (lines_of b)"]
  by (simp add: spec_diff_def unchanged_spec)

lemma spec_diff_added:
  "length (added (spec_diff a b)) + length (unchanged (spec_diff a b)) = length (lines_of b)"
  using added_count_spec [of "lines_of a" "lines_of b" "length (lines_of a)" "length (lines_of b)"]
  by (simp add: spec_diff_def unchanged_spec)

lemma table_shape:
  "length (compute_lcs_length xs ys) = length xs + 1 \<and>
   (\<forall>i \<le> length xs. length (compute_lcs_length xs ys ! i) = length ys + 1 \<and>
      (\<forall>j \<le> length ys. compute_lcs_length xs ys ! i ! j = lcs_len xs ys i j))"
proof (intro conjI allI impI)
  note f = compute_lcs_length_filled [of xs ys]
  show "length (compute_lcs_length xs ys) = length xs + 1"
    using f by (rule filled_len)
  fix i assume i: "i \<le> length xs"
  show "length (compute_lcs_length xs ys ! i) = length ys + 1"
    using f i by (rule filled_row_len)
  fix j assume j: "j \<le> length ys"
  have "i < length xs \<or> (i = length xs \<and> j \<le> length ys) \<or> j = 0"
    using i j by auto
  with f i j show "compute_lcs_length xs ys ! i ! j = lcs_len xs ys i j"
    by (rule filled_val)
qed

text \<open>
  C2. \<open>compute_diff\<close> splits both texts into lines, fills the \<open>(m + 1) \<times> (n + 1)\<close> table
  with the lengths of the longest common subsequences of the prefixes, and returns
  without raising the reversed backtracking of the specification from cell \<open>(m, n)\<close>
  (unchanged on a match with a diagonal step, else added when the left neighbour is at
  least the up neighbour, else removed). The result is a minimal edit script: its removed
  and unchanged lines are in order the lines of the first text, its added and unchanged
  lines those of the second, and its unchanged lines are a common subsequence of the two
  line lists that no common subsequence exceeds in length.
\<close>

theorem compute_diff_minimal:
  "\<exists>ds. compute_diff text1 text2 = Inr ds \<and>
     ds = spec_diff text1 text2 \<and>
     length (compute_lcs_length (lines_of text1) (lines_of text2)) = length (lines_of text1) + 1 \<and>
     (\<forall>i \<le> length (lines_of text1).
        length (compute_lcs_length (lines_of text1) (lines_of text2) ! i) =
          length (lines_of text2) + 1 \<and>
        (\<forall>j \<le> length (lines_of text2).
           compute_lcs_length (lines_of text1) (lines_of text2) ! i ! j =
             lcs_len (lines_of text1) (lines_of text2) i j)) \<and>
     old_lines ds = lines_of text1 \<and>
     new_lines ds = lines_of text2 \<and>
     subseq (unchanged ds) (lines_of text1) \<and>
     subseq (unchanged ds) (lines_of text2) \<and>
     length (unchanged ds) =
       lcs_len (lines_of text1) (lines_of text2)
         (length (lines_of text1)) (length (lines_of text2)) \<and>
     (\<forall>zs. subseq zs (lines_of text1) \<and> subseq zs (lines_of text2) \<longrightarrow>
        length zs \<le> length (unchanged ds))"
proof (intro exI conjI)
  let ?ds = "spec_diff text1 text2"
  show "compute_diff text1 text2 = Inr ?ds"
    by (rule compute_diff_spec)
  show "?ds = spec_diff text1 text2" ..
  show "length (compute_lcs_length (lines_of text1) (lines_of text2)) =
          length (lines_of text1) + 1"
    using table_shape [of "lines_of text1" "lines_of text2"] by blast
  show "\<forall>i \<le> length (lines_of text1).
        length (compute_lcs_length (lines_of text1) (lines_of text2) ! i) =
          length (lines_of text2) + 1 \<and>
        (\<forall>j \<le> length (lines_of text2).
           compute_lcs_length (lines_of text1) (lines_of text2) ! i ! j =
             lcs_len (lines_of text1) (lines_of text2) i j)"
    using table_shape [of "lines_of text1" "lines_of text2"] by blast
  show "old_lines ?ds = lines_of text1"
    by (rule spec_diff_old)
  show "new_lines ?ds = lines_of text2"
    by (rule spec_diff_new)
  show "subseq (unchanged ?ds) (lines_of text1)"
    using unchanged_subseq_old [of ?ds] by (simp add: spec_diff_old)
  show "subseq (unchanged ?ds) (lines_of text2)"
    using unchanged_subseq_new [of ?ds] by (simp add: spec_diff_new)
  show "length (unchanged ?ds) =
       lcs_len (lines_of text1) (lines_of text2)
         (length (lines_of text1)) (length (lines_of text2))"
    by (rule spec_diff_unchanged)
  show "\<forall>zs. subseq zs (lines_of text1) \<and> subseq zs (lines_of text2) \<longrightarrow>
        length zs \<le> length (unchanged ?ds)"
    using spec_diff_longest by blast
qed

lemma example_diff_ab: "compute_diff ''a\<newline>b'' ''a\<newline>c'' =
   Inr [\<lparr>line_type = '' '', content = ''a'', line_num = 1\<rparr>,
        \<lparr>line_type = ''-'', content = ''b'', line_num = 2\<rparr>,
        \<lparr>line_type = ''+'', content = ''c'', line_num = 0\<rparr>]"
  by code_simp

lemma example_lines: "lines_of ''a\<newline>b'' = [''a'', ''b''] \<and> lines_of ''a\<newline>c'' = [''a'', ''c'']"
  by code_simp

theorem compute_diff_minimal_witness:
  "compute_diff ''a\<newline>b'' ''a\<newline>c'' =
     Inr [\<lparr>line_type = '' '', content = ''a'', line_num = 1\<rparr>,
          \<lparr>line_type = ''-'', content = ''b'', line_num = 2\<rparr>,
          \<lparr>line_type = ''+'', content = ''c'', line_num = 0\<rparr>] \<and>
   subseq [''a''] (lines_of ''a\<newline>b'') \<and> subseq [''a''] (lines_of ''a\<newline>c'') \<and>
   length [''a''] \<le>
     length (unchanged [\<lparr>line_type = '' '', content = ''a'', line_num = 1\<rparr>,
          \<lparr>line_type = ''-'', content = ''b'', line_num = 2\<rparr>,
          \<lparr>line_type = ''+'', content = ''c'', line_num = 0\<rparr>]) \<and>
   compute_lcs_length (lines_of ''a\<newline>b'') (lines_of ''a\<newline>c'') ! 2 ! 2 = 1"
proof -
  let ?ds = "[\<lparr>line_type = '' '', content = ''a'', line_num = 1\<rparr>,
          \<lparr>line_type = ''-'', content = ''b'', line_num = 2\<rparr>,
          \<lparr>line_type = ''+'', content = ''c'', line_num = 0\<rparr>]"
  from compute_diff_minimal [of "''a\<newline>b''" "''a\<newline>c''"]
  obtain ds where r: "compute_diff ''a\<newline>b'' ''a\<newline>c'' = Inr ds"
    and u: "length (unchanged ds) =
       lcs_len (lines_of ''a\<newline>b'') (lines_of ''a\<newline>c'')
         (length (lines_of ''a\<newline>b'')) (length (lines_of ''a\<newline>c''))"
    and t: "\<forall>i \<le> length (lines_of ''a\<newline>b'').
        length (compute_lcs_length (lines_of ''a\<newline>b'') (lines_of ''a\<newline>c'') ! i) =
          length (lines_of ''a\<newline>c'') + 1 \<and>
        (\<forall>j \<le> length (lines_of ''a\<newline>c'').
           compute_lcs_length (lines_of ''a\<newline>b'') (lines_of ''a\<newline>c'') ! i ! j =
             lcs_len (lines_of ''a\<newline>b'') (lines_of ''a\<newline>c'') i j)"
    and m: "\<forall>zs. subseq zs (lines_of ''a\<newline>b'') \<and> subseq zs (lines_of ''a\<newline>c'') \<longrightarrow>
        length zs \<le> length (unchanged ds)"
    by blast
  have ds: "ds = ?ds"
    using r example_diff_ab by simp
  have s1: "subseq [''a''] (lines_of ''a\<newline>b'')" and s2: "subseq [''a''] (lines_of ''a\<newline>c'')"
    by (simp_all add: example_lines)
  have le: "length [''a''] \<le> length (unchanged ?ds)"
    using m s1 s2 ds by blast
  have l: "length (lines_of ''a\<newline>b'') = 2" "length (lines_of ''a\<newline>c'') = 2"
    by (simp_all add: example_lines)
  have "compute_lcs_length (lines_of ''a\<newline>b'') (lines_of ''a\<newline>c'') ! 2 ! 2 =
          lcs_len (lines_of ''a\<newline>b'') (lines_of ''a\<newline>c'') 2 2"
    using t l by simp
  also have "\<dots> = length (unchanged ds)"
    using u l by simp
  also have "\<dots> = 1"
    by (simp add: ds unchanged_def)
  finally have c: "compute_lcs_length (lines_of ''a\<newline>b'') (lines_of ''a\<newline>c'') ! 2 ! 2 = 1" .
  show ?thesis
    using example_diff_ab s1 s2 le c by blast
qed

text \<open>
  C7, as stated, fails: for the texts \<open>x\ny\<close> and \<open>y\nx\<close> the diff keeps \<open>y\<close> as the
  unchanged line and the diff of the swapped texts keeps \<open>x\<close>; the second is not the
  first with the labels swapped.
\<close>

theorem diff_swap_not_antisymmetric:
  "compute_diff ''x\<newline>y'' ''y\<newline>x'' =
     Inr [\<lparr>line_type = ''-'', content = ''x'', line_num = 1\<rparr>,
          \<lparr>line_type = '' '', content = ''y'', line_num = 2\<rparr>,
          \<lparr>line_type = ''+'', content = ''x'', line_num = 0\<rparr>] \<and>
   compute_diff ''y\<newline>x'' ''x\<newline>y'' =
     Inr [\<lparr>line_type = ''-'', content = ''y'', line_num = 1\<rparr>,
          \<lparr>line_type = '' '', content = ''x'', line_num = 2\<rparr>,
          \<lparr>line_type = ''+'', content = ''y'', line_num = 0\<rparr>] \<and>
   map_sum id unchanged (compute_diff ''y\<newline>x'' ''x\<newline>y'') \<noteq>
     map_sum id unchanged (compute_diff ''x\<newline>y'' ''y\<newline>x'') \<and>
   map_sum id labelled (compute_diff ''y\<newline>x'' ''x\<newline>y'') \<noteq>
     map_sum id swapped (compute_diff ''x\<newline>y'' ''y\<newline>x'')"
proof -
  have 1: "compute_diff ''x\<newline>y'' ''y\<newline>x'' =
     Inr [\<lparr>line_type = ''-'', content = ''x'', line_num = 1\<rparr>,
          \<lparr>line_type = '' '', content = ''y'', line_num = 2\<rparr>,
          \<lparr>line_type = ''+'', content = ''x'', line_num = 0\<rparr>]"
    by code_simp
  have 2: "compute_diff ''y\<newline>x'' ''x\<newline>y'' =
     Inr [\<lparr>line_type = ''-'', content = ''y'', line_num = 1\<rparr>,
          \<lparr>line_type = '' '', content = ''x'', line_num = 2\<rparr>,
          \<lparr>line_type = ''+'', content = ''y'', line_num = 0\<rparr>]"
    by code_simp
  show ?thesis
    unfolding 1 2
    by (simp add: unchanged_def labelled_def swapped_def swap_label_def)
qed

text \<open>
  C7, amended. Both \<open>compute_diff(a, b)\<close> and \<open>compute_diff(b, a)\<close> return a diff, and
  between them the counts of the labels are swapped and the line lists are exchanged: the
  second has as many unchanged lines as the first, as many added lines as the first has
  removed ones and as many removed lines as the first has added ones; its added and
  unchanged lines are in order the removed and unchanged lines of the first (the lines of
  \<open>a\<close>), and its removed and unchanged lines the added and unchanged lines of the first
  (the lines of \<open>b\<close>).
\<close>

theorem compute_diff_swapped:
  "\<exists>ds ds'. compute_diff a b = Inr ds \<and> compute_diff b a = Inr ds' \<and>
     length (unchanged ds') = length (unchanged ds) \<and>
     length (added ds') = length (removed ds) \<and>
     length (removed ds') = length (added ds) \<and>
     new_lines ds' = old_lines ds \<and>
     old_lines ds' = new_lines ds"
proof (intro exI conjI)
  show "compute_diff a b = Inr (spec_diff a b)" by (rule compute_diff_spec)
  show "compute_diff b a = Inr (spec_diff b a)" by (rule compute_diff_spec)
  show u: "length (unchanged (spec_diff b a)) = length (unchanged (spec_diff a b))"
    by (rule spec_diff_unchanged_sym)
  show "length (added (spec_diff b a)) = length (removed (spec_diff a b))"
    using spec_diff_added [of b a] spec_diff_removed [of a b] u by simp
  show "length (removed (spec_diff b a)) = length (added (spec_diff a b))"
    using spec_diff_removed [of b a] spec_diff_added [of a b] u by simp
  show "new_lines (spec_diff b a) = old_lines (spec_diff a b)"
    by (simp add: spec_diff_new spec_diff_old)
  show "old_lines (spec_diff b a) = new_lines (spec_diff a b)"
    by (simp add: spec_diff_new spec_diff_old)
qed

end
